theory Spec2Isabelle
  imports Main
begin

section \<open>Data model of the pool-resize timer function\<close>

text \<open>
  The source is \<^verbatim>\<open>src/api-service/__app__/pool_resize/__init__.py\<close>.  It reads pools, tasks,
  scalesets and nodes through library classes and mutates scalesets and nodes through their
  methods.  A Python \<^verbatim>\<open>int\<close> is an \<^typ>\<open>int\<close>; identifiers (UUIDs) are natural numbers.
\<close>

text \<open>
  Modelled from the spec: the enum \<^verbatim>\<open>ScalesetState\<close> is declared in \<^verbatim>\<open>onefuzztypes.enums\<close>.
  The source names the members \<^verbatim>\<open>running\<close>, \<^verbatim>\<open>resize\<close> and \<^verbatim>\<open>shutdown\<close>; the spec lists
  "running, resizing, shutting-down, plus others outside this core's concern", and the last
  constructor stands for those others.
\<close>

datatype ScalesetState = running | resize | shutdown | other_state string

text \<open>
  Modelled from the spec: \<^verbatim>\<open>ScalesetState.modifying()\<close> is a table of that enum.  The
  functions below take the table as a parameter (a predicate on states); this instance, "a
  scaleset currently resizing or shutting down", is used at concrete inputs.
\<close>

definition modifying_spec :: "ScalesetState \<Rightarrow> bool" where
  "modifying_spec s = (s = resize \<or> s = shutdown)"


text \<open>
  The fields of \<^verbatim>\<open>AutoScaleConfig\<close> the source reads.  \<^verbatim>\<open>max_size\<close> and \<^verbatim>\<open>region\<close> are
  optional.
\<close>

record AutoScaleConfig =
  image_a :: string
  max_size :: "int option"
  min_size :: int
  region :: "string option"
  scaleset_size :: int
  spot_instances :: bool
  vm_sku :: string

record Pool =
  name :: string
  autoscale :: "AutoScaleConfig option"

text \<open>
  A scaleset as the source sees it: its id, state and size, and the value its method
  \<^verbatim>\<open>max_size()\<close> returns (derived from its image, which this code never changes).
\<close>

record Scaleset =
  scaleset_id :: nat
  state :: ScalesetState
  size_s :: int
  max_size_s :: int

record Node =
  machine_id :: nat

record TaskPool =
  count :: int
  pool_name :: string

text \<open>
  A value that the source tests with \<^verbatim>\<open>not x\<close> and \<^verbatim>\<open>isinstance(x, T)\<close>: it is
  \<^verbatim>\<open>None\<close>, an instance of the expected class (a model object, which is truthy), or some
  other object, which fails the \<^verbatim>\<open>isinstance\<close> test whatever its truth value.
\<close>

datatype 'a pyobj = PyNone | Typed 'a | Untyped

text \<open>
  A task, reduced to what \<^verbatim>\<open>get_vm_count\<close> reads: the result of \<^verbatim>\<open>task.get_pool()\<close> and
  the field \<^verbatim>\<open>task.config.pool\<close>.
\<close>

record Task =
  get_pool :: "Pool pyobj"
  config_pool :: "TaskPool pyobj"

text \<open>
  The calls that change something outside the function, in the order they are issued:
  \<^item> \<open>Save s\<close>: \<^verbatim>\<open>scaleset.save()\<close> on an existing scaleset whose fields are then \<open>s\<close>;
  \<^item> \<open>Create pool_name vm_sku image region size spot_instances tags\<close>:
    \<^verbatim>\<open>Scaleset.create(...)\<close> with these arguments, followed by \<^verbatim>\<open>save()\<close> of the new scaleset;
  \<^item> \<open>SetShutdown n\<close>: \<^verbatim>\<open>node.set_shutdown()\<close>.
\<close>

datatype effect =
    Save Scaleset
  | Create string string string string int bool "(string \<times> string) list"
  | SetShutdown Node

text \<open>
  The exceptions the source can raise: its own "Region is missing", and the two that the
  division of line 51 can raise.
\<close>

datatype error = RegionMissing | ZeroDivisionError | OverflowError

section \<open>scale\_up\<close>

subsection \<open>The quotient of line 51 and its ceiling\<close>

text \<open>
  \<^verbatim>\<open>nodes_needed / min(...)\<close> divides two Python integers: the result is the double nearest
  to the exact quotient (ties to the even mantissa), \<^verbatim>\<open>ZeroDivisionError\<close> for a zero
  divisor and \<^verbatim>\<open>OverflowError\<close> when the rounded quotient is beyond the doubles.
  \<^verbatim>\<open>math.ceil\<close> of a double is its exact integer ceiling.  A double is written here as a
  pair \<open>(m, x)\<close> of integers that stands for \<open>m * 2 ^ x\<close>.
\<close>

text \<open>\<^verbatim>\<open>int.bit_length\<close>: the number of binary digits of a positive integer.\<close>

function bit_length :: "int \<Rightarrow> nat" where
  "bit_length n = (if n \<le> 0 then 0 else Suc (bit_length (n div 2)))"
  by pat_completeness auto
termination
  by (relation "measure nat") auto

declare bit_length.simps [simp del]

text \<open>
  The binary exponent of the quotient of two positive integers: the \<open>e\<close> with
  \<open>2 ^ e \<le> a / b < 2 ^ (e + 1)\<close>.
\<close>

definition floor_log2 :: "int \<Rightarrow> int \<Rightarrow> int" where
  "floor_log2 a b =
     (let d = int (bit_length a) - int (bit_length b)
      in if b * 2 ^ nat d \<le> a * 2 ^ nat (- d) then d else d - 1)"

text \<open>The integer nearest to \<open>p / q\<close> for \<open>q > 0\<close>, ties to the even one.\<close>

definition round_half_even :: "int \<Rightarrow> int \<Rightarrow> int" where
  "round_half_even p q =
     (let n = p div q; r = p mod q
      in if 2 * r < q then n else if q < 2 * r then n + 1 else if even n then n else n + 1)"

text \<open>
  \<^verbatim>\<open>a / b\<close>.  The mantissa has 53 bits at the exponent of the quotient, and fewer below
  the smallest normal exponent \<open>- 1022\<close>, where a quotient can round to zero.
\<close>

definition true_divide :: "int \<Rightarrow> int \<Rightarrow> error + int \<times> int" where
  "true_divide a b =
     (if b = 0 then Inl ZeroDivisionError
      else if a = 0 then Inr (0, 0)
      else
        (let x = max (floor_log2 (abs a) (abs b)) (- 1022) - 52;
             m = round_half_even (abs a * 2 ^ nat (- x)) (abs b * 2 ^ nat x)
         in if 2 ^ 1024 * 2 ^ nat (- x) \<le> m * 2 ^ nat x then Inl OverflowError
            else Inr (sgn a * sgn b * m, x)))"

definition math_ceil :: "int \<times> int \<Rightarrow> int" where
  "math_ceil f =
     (case f of (m, x) \<Rightarrow> if 0 \<le> x then m * 2 ^ nat x else - ((- m) div 2 ^ nat (- x)))"

text \<open>\<^verbatim>\<open>math.ceil(a / b)\<close>, lines 50--56.\<close>

definition ceil_of_quotient :: "int \<Rightarrow> int \<Rightarrow> error + int" where
  "ceil_of_quotient a b =
     (case true_divide a b of Inl e \<Rightarrow> Inl e | Inr f \<Rightarrow> Inr (math_ceil f))"

subsection \<open>The two loops\<close>

text \<open>
  Lines 24--47, the loop over the existing scalesets.  The result is the list of scalesets
  with the sizes and states the loop has assigned, the saves issued, the value of
  \<^verbatim>\<open>nodes_needed\<close> at the end, and whether the loop left through \<^verbatim>\<open>return\<close> (line 47).
\<close>

fun fill :: "AutoScaleConfig \<Rightarrow> Scaleset list \<Rightarrow> int
    \<Rightarrow> Scaleset list \<times> effect list \<times> int \<times> bool" where
  "fill cfg [] nodes_needed = ([], [], nodes_needed, False)"
| "fill cfg (scaleset # rest) nodes_needed =
    (if state scaleset = running then
       (let max_size' = min (max_size_s scaleset) (scaleset_size cfg) in
        if size_s scaleset < max_size' then
          (let current_size = size_s scaleset;
               grown = (if nodes_needed \<le> max_size' - current_size
                        then scaleset\<lparr>size_s := current_size + nodes_needed\<rparr>
                        else scaleset\<lparr>size_s := max_size'\<rparr>);
               needed' = (if nodes_needed \<le> max_size' - current_size
                          then 0
                          else nodes_needed - (max_size' - current_size));
               saved = grown\<lparr>state := resize\<rparr>
           in if needed' = 0 then (saved # rest, [Save saved], 0, True)
              else (case fill cfg rest needed' of
                      (rest', es, left, returned) \<Rightarrow>
                        (saved # rest', Save saved # es, left, returned)))
        else (case fill cfg rest nodes_needed of
                (rest', es, left, returned) \<Rightarrow> (scaleset # rest', es, left, returned)))
     else (case fill cfg rest nodes_needed of
             (rest', es, left, returned) \<Rightarrow> (scaleset # rest', es, left, returned)))"

text \<open>
  Lines 49--78, the creation loop, for a given number of iterations.  The parameter
  \<open>scaleset_max_size\<close> is \<^verbatim>\<open>Scaleset.scaleset_max_size\<close>, a table from images to sizes that
  is declared in \<^verbatim>\<open>onefuzzlib.pools\<close>.  \<^verbatim>\<open>not autoscale_config.region\<close> holds for \<^verbatim>\<open>None\<close>
  and for the empty string.
\<close>

fun create_loop :: "(string \<Rightarrow> int) \<Rightarrow> AutoScaleConfig \<Rightarrow> string \<Rightarrow> nat \<Rightarrow> int
    \<Rightarrow> effect list \<times> (error + unit)" where
  "create_loop scaleset_max_size cfg pname 0 nodes_needed = ([], Inr ())"
| "create_loop scaleset_max_size cfg pname (Suc k) nodes_needed =
    (let max_nodes_scaleset =
           min (min (scaleset_max_size (image_a cfg)) (scaleset_size cfg)) nodes_needed
     in (case region cfg of
           None \<Rightarrow> ([], Inl RegionMissing)
         | Some r \<Rightarrow>
            if r = [] then ([], Inl RegionMissing)
            else (case create_loop scaleset_max_size cfg pname k
                         (nodes_needed - max_nodes_scaleset) of
                    (es, res) \<Rightarrow>
                      (Create pname (vm_sku cfg) (image_a cfg) r max_nodes_scaleset
                         (spot_instances cfg) [(''pool'', pname)] # es, res))))"

text \<open>The creation cap of a configuration: the divisor of line 52.\<close>

definition creation_cap :: "(string \<Rightarrow> int) \<Rightarrow> AutoScaleConfig \<Rightarrow> int" where
  "creation_cap scaleset_max_size cfg = min (scaleset_max_size (image_a cfg)) (scaleset_size cfg)"

text \<open>
  \<^verbatim>\<open>scale_up\<close>.  The result is the scalesets as the function leaves them, the effects issued
  in order, and how the call ended: \<open>Inr ()\<close> for a return, \<open>Inl e\<close> for an exception (the
  effects issued before it stay issued).  The argument of \<^verbatim>\<open>range\<close> is evaluated before the
  first iteration, and \<^verbatim>\<open>range(k)\<close> is empty for \<open>k \<le> 0\<close>.
\<close>

definition scale_up :: "(string \<Rightarrow> int) \<Rightarrow> Pool \<Rightarrow> Scaleset list \<Rightarrow> int
    \<Rightarrow> Scaleset list \<times> effect list \<times> (error + unit)" where
  "scale_up scaleset_max_size pool scalesets nodes_needed =
    (case autoscale pool of
       None \<Rightarrow> (scalesets, [], Inr ())
     | Some cfg \<Rightarrow>
        (case fill cfg scalesets nodes_needed of
           (scalesets', es, left, returned) \<Rightarrow>
             if returned then (scalesets', es, Inr ())
             else (case ceil_of_quotient left (creation_cap scaleset_max_size cfg) of
                     Inl e \<Rightarrow> (scalesets', es, Inl e)
                   | Inr k \<Rightarrow>
                      (case create_loop scaleset_max_size cfg (name pool) (nat k) left of
                         (es', r) \<Rightarrow> (scalesets', es @ es', r)))))"

section \<open>scale\_down\<close>

text \<open>
  The body of the loop of \<^verbatim>\<open>scale_down\<close> (lines 84--100) for one scaleset.  The parameter
  \<open>free\<close> is the query \<^verbatim>\<open>Node.search_states(scaleset_id=..., states=[NodeState.free])\<close>.
  The result is the scaleset as the body leaves it, the effects issued, and the new value
  of \<^verbatim>\<open>nodes_to_remove\<close>.
\<close>

definition scale_down_step :: "(nat \<Rightarrow> Node list) \<Rightarrow> Scaleset \<Rightarrow> int
    \<Rightarrow> Scaleset \<times> effect list \<times> int" where
  "scale_down_step free scaleset nodes_to_remove =
    (let nodes = free (scaleset_id scaleset) in
     if nodes \<noteq> [] \<and> nodes_to_remove > 0 then
       (let max_nodes_remove = min (int (length nodes)) nodes_to_remove in
        if max_nodes_remove \<ge> size_s scaleset \<and> int (length nodes) = size_s scaleset then
          (let saved = scaleset\<lparr>state := shutdown\<rparr>
           in (saved, Save saved # map SetShutdown nodes, nodes_to_remove - size_s scaleset))
        else
          (let saved = scaleset\<lparr>size_s := size_s scaleset - max_nodes_remove, state := resize\<rparr>
           in (saved, [Save saved], nodes_to_remove - max_nodes_remove)))
     else (scaleset, [], nodes_to_remove))"

fun scale_down :: "(nat \<Rightarrow> Node list) \<Rightarrow> Scaleset list \<Rightarrow> int
    \<Rightarrow> Scaleset list \<times> effect list \<times> int" where
  "scale_down free [] nodes_to_remove = ([], [], nodes_to_remove)"
| "scale_down free (scaleset # rest) nodes_to_remove =
    (case scale_down_step free scaleset nodes_to_remove of
       (scaleset', es, n') \<Rightarrow>
         (case scale_down free rest n' of
            (rest', es', n'') \<Rightarrow> (scaleset' # rest', es @ es', n'')))"

section \<open>get\_vm\_count and main\<close>

fun get_vm_count :: "Task list \<Rightarrow> int" where
  "get_vm_count [] = 0"
| "get_vm_count (task # tasks) =
    (case (get_pool task, config_pool task) of
       (Typed p, Typed tp) \<Rightarrow> count tp + get_vm_count tasks
     | _ \<Rightarrow> get_vm_count tasks)"

text \<open>Lines 128--131: the desired total for a pool with the configuration \<open>cfg\<close>.\<close>

definition desired_nodes :: "AutoScaleConfig \<Rightarrow> Task list \<Rightarrow> int" where
  "desired_nodes cfg tasks =
    (let num_of_tasks = get_vm_count tasks;
         nodes_needed = max num_of_tasks (min_size cfg)
     in (case max_size cfg of
           None \<Rightarrow> nodes_needed
         | Some m \<Rightarrow> if m \<noteq> 0 then min nodes_needed m else nodes_needed))"

text \<open>
  Lines 136--141: the scan of the pool's scalesets.  The result is \<^verbatim>\<open>pool_resize\<close> and the
  value of \<^verbatim>\<open>nodes_needed\<close> when the loop ends.
\<close>

fun scan :: "(ScalesetState \<Rightarrow> bool) \<Rightarrow> Scaleset list \<Rightarrow> int \<Rightarrow> bool \<times> int" where
  "scan modifying [] nodes_needed = (False, nodes_needed)"
| "scan modifying (scaleset # rest) nodes_needed =
    (if modifying (state scaleset) then (True, nodes_needed)
     else scan modifying rest (nodes_needed - size_s scaleset))"

text \<open>
  The body of the loop of \<^verbatim>\<open>main\<close> for one pool, given what the queries return for it:
  its tasks, its scalesets and the free nodes of each scaleset.
\<close>

definition process_pool :: "(ScalesetState \<Rightarrow> bool) \<Rightarrow> (string \<Rightarrow> int) \<Rightarrow> Pool \<Rightarrow> Task list
    \<Rightarrow> Scaleset list \<Rightarrow> (nat \<Rightarrow> Node list) \<Rightarrow> Scaleset list \<times> effect list \<times> (error + unit)" where
  "process_pool modifying scaleset_max_size pool tasks scalesets free =
    (case autoscale pool of
       None \<Rightarrow> (scalesets, [], Inr ())
     | Some cfg \<Rightarrow>
        (case scan modifying scalesets (desired_nodes cfg tasks) of
           (pool_resize, nodes_needed) \<Rightarrow>
             if pool_resize then (scalesets, [], Inr ())
             else if nodes_needed > 0 then scale_up scaleset_max_size pool scalesets nodes_needed
             else if nodes_needed < 0 then
               (case scale_down free scalesets (abs nodes_needed) of
                  (scalesets', es, left) \<Rightarrow> (scalesets', es, Inr ()))
             else (scalesets, [], Inr ())))"

text \<open>
  \<^verbatim>\<open>main\<close> over the pools that \<^verbatim>\<open>Pool.search_states\<close> returns.  The queries by pool name are
  parameters; pools have distinct names, so what one pool's processing changes is not read
  by a later pool of the same tick.  The log lists, for each processed pool, its name, its
  scalesets as the processing left them and the effects issued for it; an exception ends
  the tick.
\<close>

fun main :: "(ScalesetState \<Rightarrow> bool) \<Rightarrow> (string \<Rightarrow> int) \<Rightarrow> (string \<Rightarrow> Task list)
    \<Rightarrow> (string \<Rightarrow> Scaleset list) \<Rightarrow> (nat \<Rightarrow> Node list) \<Rightarrow> Pool list
    \<Rightarrow> (string \<times> Scaleset list \<times> effect list) list \<times> (error + unit)" where
  "main modifying scaleset_max_size get_tasks_by_pool_name search_by_pool free [] = ([], Inr ())"
| "main modifying scaleset_max_size get_tasks_by_pool_name search_by_pool free (pool # pools) =
    (case process_pool modifying scaleset_max_size pool (get_tasks_by_pool_name (name pool))
            (search_by_pool (name pool)) free of
       (scalesets', es, Inl e) \<Rightarrow> ([(name pool, scalesets', es)], Inl e)
     | (scalesets', es, Inr u) \<Rightarrow>
         (case main modifying scaleset_max_size get_tasks_by_pool_name search_by_pool free pools of
            (log, r) \<Rightarrow> ((name pool, scalesets', es) # log, r)))"

section \<open>What a run has done\<close>

text \<open>The sizes passed to \<^verbatim>\<open>Scaleset.create\<close>, in order.\<close>

fun created_sizes :: "effect list \<Rightarrow> int list" where
  "created_sizes [] = []"
| "created_sizes (Create pn sku img reg sz spot tags # es) = sz # created_sizes es"
| "created_sizes (e # es) = created_sizes es"

text \<open>The scalesets that were saved, with the fields they were saved with, in order.\<close>

fun saved_scalesets :: "effect list \<Rightarrow> Scaleset list" where
  "saved_scalesets [] = []"
| "saved_scalesets (Save s # es) = s # saved_scalesets es"
| "saved_scalesets (e # es) = saved_scalesets es"

text \<open>The nodes that received \<^verbatim>\<open>set_shutdown\<close>, in order.\<close>

fun shutdown_nodes :: "effect list \<Rightarrow> Node list" where
  "shutdown_nodes [] = []"
| "shutdown_nodes (SetShutdown n # es) = n # shutdown_nodes es"
| "shutdown_nodes (e # es) = shutdown_nodes es"

text \<open>
  The sum of the size changes of the existing scalesets, position by position, between the
  list a function was given and the list it left.
\<close>

definition size_increases :: "Scaleset list \<Rightarrow> Scaleset list \<Rightarrow> int" where
  "size_increases before after =
     sum_list (map (\<lambda>(old, new). size_s new - size_s old) (zip before after))"




section \<open>Concrete inputs\<close>

text \<open>Tables and records used to run the functions on concrete inputs.\<close>

definition image_max_1000 :: "string \<Rightarrow> int" where
  "image_max_1000 img = 1000"

definition no_free_nodes :: "nat \<Rightarrow> Node list" where
  "no_free_nodes sid = []"


definition cfg_example :: "int \<Rightarrow> int option \<Rightarrow> int \<Rightarrow> string option \<Rightarrow> AutoScaleConfig" where
  "cfg_example lo hi per_scaleset reg =
     \<lparr>image_a = ''Canonical:UbuntuServer:18.04-LTS:latest'', max_size = hi, min_size = lo,
      region = reg, scaleset_size = per_scaleset, spot_instances = False,
      vm_sku = ''Standard_D2s_v3''\<rparr>"

definition pool_example :: "AutoScaleConfig \<Rightarrow> Pool" where
  "pool_example cfg = \<lparr>name = ''linux'', autoscale = Some cfg\<rparr>"

definition scaleset_example :: "nat \<Rightarrow> ScalesetState \<Rightarrow> int \<Rightarrow> Scaleset" where
  "scaleset_example sid st sz = \<lparr>scaleset_id = sid, state = st, size_s = sz, max_size_s = 1000\<rparr>"

definition task_example :: "int \<Rightarrow> Task" where
  "task_example n =
     \<lparr>get_pool = Typed \<lparr>name = ''linux'', autoscale = None\<rparr>,
      config_pool = Typed \<lparr>count = n, pool_name = ''linux''\<rparr>\<rparr>"

text \<open>A task whose pool does not resolve, and one whose pool reference is not a \<^verbatim>\<open>TaskPool\<close>.\<close>

definition task_unresolved :: "int \<Rightarrow> Task" where
  "task_unresolved n =
     \<lparr>get_pool = PyNone, config_pool = Typed \<lparr>count = n, pool_name = ''gone''\<rparr>\<rparr>"

definition task_mistyped :: Task where
  "task_mistyped =
     \<lparr>get_pool = Typed \<lparr>name = ''linux'', autoscale = None\<rparr>, config_pool = Untyped\<rparr>"

definition pool_named :: "string \<Rightarrow> AutoScaleConfig \<Rightarrow> Pool" where
  "pool_named pname cfg = \<lparr>name = pname, autoscale = Some cfg\<rparr>"

text \<open>
  A store with two pools, \<open>linux\<close> and \<open>windows\<close>, given the scalesets of each; a task
  table where \<open>linux\<close> has one task that asks for seven nodes; and one with no task.
\<close>

definition store_example :: "Scaleset list \<Rightarrow> Scaleset list \<Rightarrow> string \<Rightarrow> Scaleset list" where
  "store_example linux_scalesets windows_scalesets pname =
     (if pname = ''linux'' then linux_scalesets
      else if pname = ''windows'' then windows_scalesets else [])"

definition tasks_example :: "string \<Rightarrow> Task list" where
  "tasks_example pname = (if pname = ''linux'' then [task_example 7] else [])"


fun node_range :: "nat \<Rightarrow> nat \<Rightarrow> Node list" where
  "node_range first 0 = []"
| "node_range first (Suc k) = \<lparr>machine_id = first\<rparr> # node_range (Suc first) k"

text \<open>Scaleset 1 has five free nodes, scaleset 2 has two, every other scaleset none.\<close>

definition free_example :: "nat \<Rightarrow> Node list" where
  "free_example sid =
     (if sid = 1 then node_range 10 5 else if sid = 2 then node_range 20 2 else [])"

section \<open>Properties of the quotient and its ceiling\<close>

lemma bit_length_bounds:
  "0 < n \<Longrightarrow> \<exists>l. bit_length n = Suc l \<and> 2 ^ l \<le> n \<and> n < 2 ^ Suc l"
proof (induction n rule: bit_length.induct)
  case (1 n)
  show ?case
  proof (cases "n div 2 \<le> 0")
    case True
    with "1.prems" have "n = 1" by linarith
    then have "bit_length n = Suc 0" by (simp add: bit_length.simps)
    with \<open>n = 1\<close> show ?thesis by simp
  next
    case False
    then have pos: "0 < n div 2" by simp
    from "1.prems" have "\<not> n \<le> 0" by simp
    from "1.IH" [OF this pos] obtain l where l: "bit_length (n div 2) = Suc l"
      "2 ^ l \<le> n div 2" "n div 2 < 2 ^ Suc l" by blast
    from "1.prems" l(1) have "bit_length n = Suc (Suc l)"
      by (subst bit_length.simps) simp
    moreover from l(2) have "2 ^ Suc l \<le> n" by auto
    moreover from l(3) have "n < 2 ^ Suc (Suc l)" by auto
    ultimately show ?thesis by blast
  qed
qed

text \<open>Rounding to the nearest integer stays on the same side of an integer bound.\<close>

lemma round_half_even_le:
  assumes "0 < q" "p \<le> N * q"
  shows "round_half_even p q \<le> N"
proof -
  have d: "p div q \<le> N"
    using assms by (metis zdiv_mono1 nonzero_mult_div_cancel_right less_irrefl)
  show ?thesis
  proof (cases "p div q = N")
    case True
    have "p = (p div q) * q + p mod q" by simp
    with True assms have "p mod q \<le> 0" by (metis add_le_same_cancel1)
    moreover have "0 \<le> p mod q" using assms by simp
    ultimately have "p mod q = 0" by simp
    with True assms show ?thesis by (simp add: round_half_even_def Let_def)
  next
    case False
    with d have "p div q + 1 \<le> N" by simp
    then show ?thesis by (simp add: round_half_even_def Let_def)
  qed
qed

lemma div_mod_decomp:
  fixes p q :: int
  assumes "0 < q"
  obtains n r where "p = n * q + r" "0 \<le> r" "r < q" "p div q = n" "p mod q = r"
  using assms by (metis div_mult_mod_eq pos_mod_sign pos_mod_bound)

lemma round_half_even_ge:
  assumes "0 < q" "(2 * N + 1) * q < 2 * p"
  shows "N + 1 \<le> round_half_even p q"
proof -
  from assms(1) obtain n r where d: "p = n * q + r" "0 \<le> r" "r < q" "p div q = n" "p mod q = r"
    by (rule div_mod_decomp)
  have "(2 * N + 1) * q < 2 * (n * q + r)" using assms d by simp
  also have "\<dots> < (2 * n + 2) * q" using d(3) by (simp add: algebra_simps)
  finally have "2 * N + 1 < 2 * n + 2" using assms(1) by (simp add: mult_less_cancel_right)
  then have n: "N \<le> n" by simp
  show ?thesis
  proof (cases "n = N")
    case True
    with assms d have "(2 * N + 1) * q < 2 * (N * q + r)" by simp
    then have "q < 2 * r" by (simp add: algebra_simps)
    with True d show ?thesis by (simp add: round_half_even_def Let_def)
  next
    case False
    with n have "N + 1 \<le> n" by simp
    with d show ?thesis by (simp add: round_half_even_def Let_def)
  qed
qed

lemma round_half_even_ge_div: "round_half_even p q \<ge> p div q"
  by (simp add: round_half_even_def Let_def)


text \<open>The exponent is not above the quotient: \<open>2 ^ e \<le> a / b\<close>.\<close>

lemma floor_log2_lower:
  assumes a: "0 < a" and b: "0 < b"
  shows "b * 2 ^ nat (floor_log2 a b) \<le> a * 2 ^ nat (- floor_log2 a b)"
proof -
  from bit_length_bounds [OF a] obtain la where la: "bit_length a = Suc la" "2 ^ la \<le> a"
    by blast
  from bit_length_bounds [OF b] obtain lb where lb: "bit_length b = Suc lb" "b < 2 ^ Suc lb"
    by blast
  let ?d = "int (bit_length a) - int (bit_length b)"
  have d: "?d = int la - int lb" using la lb by simp
  show ?thesis
  proof (cases "b * 2 ^ nat ?d \<le> a * 2 ^ nat (- ?d)")
    case True
    then show ?thesis by (simp add: floor_log2_def Let_def)
  next
    case False
    then have e: "floor_log2 a b = int la - int lb - 1"
      using d by (simp add: floor_log2_def Let_def)
    show ?thesis
    proof (cases "lb < la")
      case True
      then obtain k where k: "la = Suc (lb + k)" by (metis less_imp_Suc_add)
      have "b * 2 ^ k \<le> 2 ^ Suc lb * 2 ^ k" using lb(2) by simp
      also have "\<dots> = 2 ^ la" using k by (simp add: power_add)
      also have "\<dots> \<le> a" by (rule la(2))
      finally show ?thesis using e k by simp
    next
      case False
      then obtain k where k: "lb = la + k" by (metis le_Suc_ex not_less)
      have "b \<le> 2 ^ Suc lb" using lb(2) by simp
      also have "\<dots> = 2 ^ la * 2 ^ Suc k" using k by (simp add: power_add)
      also have "\<dots> \<le> a * 2 ^ Suc k" using la(2) by simp
      finally have "b \<le> a * 2 ^ Suc k" .
      moreover have "nat (- floor_log2 a b) = Suc k" "nat (floor_log2 a b) = 0"
        using e k by simp_all
      ultimately show ?thesis by simp
    qed
  qed
qed

lemma floor_log2_range:
  assumes a: "0 < a" "a < 2 ^ 53" and b: "0 < b" "b < 2 ^ 53"
  shows "- 53 \<le> floor_log2 a b" and "floor_log2 a b \<le> 52"
proof -
  from bit_length_bounds [OF a(1)] obtain la where la: "bit_length a = Suc la" "2 ^ la \<le> a"
    by blast
  from bit_length_bounds [OF b(1)] obtain lb where lb: "bit_length b = Suc lb" "2 ^ lb \<le> b"
    by blast
  from la(2) a(2) have "(2::int) ^ la < 2 ^ 53" by simp
  then have "la < 53" by (simp only: power_strict_increasing_iff) 
  moreover from lb(2) b(2) have "(2::int) ^ lb < 2 ^ 53" by simp
  then have "lb < 53" by (simp only: power_strict_increasing_iff)
  ultimately show "- 53 \<le> floor_log2 a b" and "floor_log2 a b \<le> 52"
    using la(1) lb(1) by (auto simp: floor_log2_def Let_def)
qed


lemma ceiling_unique:
  fixes y k c :: int
  assumes "0 < k" "(c - 1) * k < y" "y \<le> c * k"
  shows "- ((- y) div k) = c"
proof -
  have "- y = k * (- c) + (c * k - y)" by (simp add: algebra_simps)
  moreover have "0 \<le> c * k - y" using assms by simp
  moreover have "c * k - y < k" using assms by (simp add: algebra_simps)
  ultimately have "(- y) div k = - c" by (rule int_div_pos_eq)
  then show ?thesis by simp
qed

lemma ceiling_bounds:
  fixes a b :: int
  assumes "0 < b"
  shows "(- ((- a) div b) - 1) * b < a" and "a \<le> - ((- a) div b) * b"
proof -
  from assms obtain n r where d: "- a = n * b + r" "0 \<le> r" "r < b" "(- a) div b = n"
    by (rule div_mod_decomp [of b "- a"])
  have c: "- ((- a) div b) = - n" using d by simp
  have e1: "(- n - 1) * b = - (n * b) - b" by (simp add: algebra_simps)
  have e2: "(- n) * b = - (n * b)" by simp
  show "(- ((- a) div b) - 1) * b < a" unfolding c e1 using d(1,3) by linarith
  show "a \<le> - ((- a) div b) * b" unfolding c e2 using d(1,2) by linarith
qed

text \<open>
  Below \<open>2 ^ 53\<close> the double nearest to the quotient has the ceiling of the quotient: the
  quotient is at least \<open>1 / b\<close> above the integer below it, which is more than half the
  distance between neighbouring doubles there.
\<close>

lemma ceil_of_quotient_exact:
  assumes a: "0 < a" "a < 2 ^ 53" and b: "0 < b" "b < 2 ^ 53"
  shows "ceil_of_quotient a b = Inr (- ((- a) div b))"
proof -
  define e where "e = floor_log2 a b"
  define s where "s = nat (52 - e)"
  define c where "c = - ((- a) div b)"
  define m where "m = round_half_even (a * 2 ^ s) b"
  have e: "- 53 \<le> e" "e \<le> 52"
    using floor_log2_range [OF a b] by (simp_all add: e_def)
  have low: "b * 2 ^ nat e \<le> a * 2 ^ nat (- e)"
    using floor_log2_lower [OF a(1) b(1)] by (simp add: e_def)
  have c: "(c - 1) * b < a" "a \<le> c * b"
    using ceiling_bounds [OF b(1), of a] by (simp_all add: c_def)
  have small: "b < 2 * 2 ^ s"
  proof (cases "0 \<le> e")
    case True
    then obtain k where k: "e = int k" "k \<le> 52" using e by (metis nat_le_iff nat_0_le of_nat_numeral)
    have s: "53 = k + Suc s" using k by (simp add: s_def)
    from low k have "b * 2 ^ k \<le> a" by simp
    with a(2) have "b * 2 ^ k < 2 ^ 53" by simp
    also have "\<dots> = 2 ^ Suc s * 2 ^ k" by (simp only: s power_add mult.commute)
    finally show ?thesis by simp
  next
    case False
    then have "53 \<le> s" by (simp add: s_def)
    then have "(2::int) ^ 53 \<le> 2 ^ s" by (simp only: power_increasing_iff rel_simps)
    with b(2) show ?thesis by simp
  qed
  have up: "m \<le> c * 2 ^ s"
    unfolding m_def
  proof (rule round_half_even_le [OF b(1)])
    from c(2) have "a * 2 ^ s \<le> (c * b) * 2 ^ s" by (simp add: mult_right_mono)
    then show "a * 2 ^ s \<le> c * 2 ^ s * b" by (simp add: algebra_simps)
  qed
  have lo: "(c - 1) * 2 ^ s + 1 \<le> m"
    unfolding m_def
  proof (rule round_half_even_ge [OF b(1)])
    from c(1) have "(c - 1) * b + 1 \<le> a" by simp
    then have "((c - 1) * b + 1) * (2 * 2 ^ s) \<le> a * (2 * 2 ^ s)"
      by (simp only: mult_right_mono zero_le_numeral zero_le_power mult_nonneg_nonneg)
    moreover have "(2 * ((c - 1) * 2 ^ s) + 1) * b < ((c - 1) * b + 1) * (2 * 2 ^ s)"
      using small by (simp add: algebra_simps)
    ultimately show "(2 * ((c - 1) * 2 ^ s) + 1) * b < 2 * (a * 2 ^ s)"
      by (simp add: algebra_simps)
  qed
  have "c \<le> a"
  proof (cases "c \<le> 1")
    case True
    with a(1) show ?thesis by simp
  next
    case False
    with b(1) have "(c - 1) * 1 \<le> (c - 1) * b" by (intro mult_left_mono) simp_all
    with c(1) show ?thesis by simp
  qed
  with a(2) have "c < 2 ^ 1024" by simp
  then have "c * 2 ^ s < 2 ^ 1024 * 2 ^ s" by (rule mult_strict_right_mono) simp
  with up have noof: "\<not> 2 ^ 1024 * 2 ^ s \<le> m" by linarith
  have mx: "max (floor_log2 a b) (- 1022) = e" using e by (simp add: e_def)
  have nx: "nat (e - 52) = 0" "nat (52 - e) = s" using e by (simp_all add: s_def)
  have td: "true_divide a b = Inr (m, e - 52)"
    using a(1) b(1) noof by (simp add: true_divide_def mx nx Let_def m_def)
  have "math_ceil (m, e - 52) = c"
  proof (cases "0 \<le> e - 52")
    case True
    with e have "s = 0" by (simp add: s_def)
    with up lo have "m = c" by simp
    with True show ?thesis by (simp add: math_ceil_def nx)
  next
    case False
    have "- ((- m) div 2 ^ s) = c"
      by (rule ceiling_unique) (use up lo in simp_all)
    with False show ?thesis by (simp add: math_ceil_def nx)
  qed
  with td show ?thesis by (simp add: ceil_of_quotient_def c_def)
qed


text \<open>
  For a divisor below \<open>2 ^ 53\<close> the quotient of positive integers never rounds to zero:
  either it is beyond the doubles, or its ceiling is at least 1.
\<close>

lemma floor_log2_ge:
  assumes a: "0 < a" and b: "0 < b" "b < 2 ^ 53"
  shows "- 53 \<le> floor_log2 a b"
proof -
  from bit_length_bounds [OF a] obtain la where la: "bit_length a = Suc la" by blast
  from bit_length_bounds [OF b(1)] obtain lb where lb: "bit_length b = Suc lb" "2 ^ lb \<le> b"
    by blast
  from lb(2) b(2) have "(2::int) ^ lb < 2 ^ 53" by simp
  then have "lb < 53" by (simp only: power_strict_increasing_iff)
  then show ?thesis using la lb(1) by (auto simp: floor_log2_def Let_def)
qed

lemma ceil_of_quotient_positive:
  assumes a: "0 < a" and b: "0 < b" "b < 2 ^ 53"
  shows "ceil_of_quotient a b = Inl OverflowError \<or>
    (\<exists>k. ceil_of_quotient a b = Inr k \<and> 1 \<le> k)"
proof -
  define e where "e = floor_log2 a b"
  define x where "x = e - 52"
  define m where "m = round_half_even (a * 2 ^ nat (- x)) (b * 2 ^ nat x)"
  have e: "- 53 \<le> e" using floor_log2_ge [OF a b] by (simp add: e_def)
  have low: "b * 2 ^ nat e \<le> a * 2 ^ nat (- e)"
    using floor_log2_lower [OF a b(1)] by (simp add: e_def)
  have q: "0 < b * 2 ^ nat x" using b(1) by simp
  have qp: "b * 2 ^ nat x \<le> a * 2 ^ nat (- x)"
  proof (cases "0 \<le> x")
    case True
    then have "nat x \<le> nat e" and "nat (- e) = 0" and "nat (- x) = 0" by (simp_all add: x_def)
    then have "b * 2 ^ nat x \<le> b * 2 ^ nat e"
      using b(1) by (simp only: mult_le_cancel_left_pos power_increasing_iff rel_simps)
    with low \<open>nat (- e) = 0\<close> \<open>nat (- x) = 0\<close> show ?thesis by simp
  next
    case False
    then have nx: "nat x = 0" by simp
    have "b \<le> a * 2 ^ nat (- e)"
    proof -
      have "b * 1 \<le> b * 2 ^ nat e" using b(1) by (intro mult_left_mono) simp_all
      with low show ?thesis by simp
    qed
    also have "\<dots> \<le> a * 2 ^ nat (- x)"
    proof -
      have "nat (- e) \<le> nat (- x)" by (simp add: x_def)
      then have "(2::int) ^ nat (- e) \<le> 2 ^ nat (- x)" by (simp only: power_increasing_iff rel_simps)
      with a show ?thesis by (intro mult_left_mono) simp_all
    qed
    finally show ?thesis using nx by simp
  qed
  have "1 \<le> (a * 2 ^ nat (- x)) div (b * 2 ^ nat x)"
    using q qp pos_imp_zdiv_pos_iff [of "b * 2 ^ nat x" "a * 2 ^ nat (- x)"] by linarith
  with round_half_even_ge_div [of "a * 2 ^ nat (- x)" "b * 2 ^ nat x"] have m: "1 \<le> m"
    by (simp add: m_def)
  have mx: "max (floor_log2 a b) (- 1022) - 52 = x" using e by (simp add: e_def x_def)
  show ?thesis
  proof (cases "2 ^ 1024 * 2 ^ nat (- x) \<le> m * 2 ^ nat x")
    case True
    then have "true_divide a b = Inl OverflowError"
      using a b(1) by (simp add: true_divide_def mx Let_def m_def)
    then show ?thesis by (simp add: ceil_of_quotient_def)
  next
    case False
    then have td: "true_divide a b = Inr (m, x)"
      using a b(1) by (simp add: true_divide_def mx Let_def m_def)
    have "1 \<le> math_ceil (m, x)"
    proof (cases "0 \<le> x")
      case True
      have "1 * 1 \<le> m * 2 ^ nat x" using m by (intro mult_mono) simp_all
      with True show ?thesis by (simp add: math_ceil_def)
    next
      case False
      have "(- m) div 2 ^ nat (- x) < 0" using m by (intro div_neg_pos_less0) simp_all
      with False show ?thesis by (simp add: math_ceil_def)
    qed
    with td show ?thesis by (simp add: ceil_of_quotient_def)
  qed
qed

lemma ceil_of_quotient_zero: "ceil_of_quotient a 0 = Inl ZeroDivisionError"
  by (simp add: ceil_of_quotient_def true_divide_def)

text \<open>
  Some values.  From \<open>2 ^ 53\<close> on the ceiling of the double can be below the ceiling of the
  exact quotient: \<open>(2 ^ 53 + 1) / 2 ^ 53\<close> is the double 1.0, with ceiling 1, where the exact
  ceiling is 2.  A quotient of \<open>2 ^ 1024\<close> is beyond the doubles.
\<close>

lemmas quotient_defs = ceil_of_quotient_def true_divide_def floor_log2_def bit_length.simps
  round_half_even_def math_ceil_def Let_def

lemma ceil_of_quotient_examples:
  "ceil_of_quotient 2 5 = Inr 1"
  "ceil_of_quotient 10 5 = Inr 2"
  "ceil_of_quotient 7 (- 5) = Inr (- 1)"
  "ceil_of_quotient 9007199254740993 9007199254740992 = Inr 1"
  "- ((- 9007199254740993) div 9007199254740992) = (2::int)"
  "ceil_of_quotient (2 ^ 1024) 1 = Inl OverflowError"
  by (simp_all add: quotient_defs)

section \<open>Properties of scale\_up\<close>

subsection \<open>The loop over the existing scalesets\<close>

lemma fill_length:
  "fill cfg ss n = (ss', es, left, returned) \<Longrightarrow> length ss' = length ss"
  by (induction ss arbitrary: n ss' es left returned)
     (auto simp: Let_def split: prod.splits if_splits)

lemma map2_same_zero: "sum_list (map2 (\<lambda>old new. size_s new - size_s old) xs xs) = 0"
  by (induction xs) auto

lemma fill_conserve:
  "fill cfg ss n = (ss', es, left, returned) \<Longrightarrow> size_increases ss ss' = n - left"
  by (induction ss arbitrary: n ss' es left returned)
     (auto simp: Let_def size_increases_def map2_same_zero split: prod.splits if_splits)

lemma fill_returned:
  "fill cfg ss n = (ss', es, left, returned) \<Longrightarrow> returned \<Longrightarrow> left = 0"
  by (induction ss arbitrary: n ss' es left returned)
     (auto simp: Let_def split: prod.splits if_splits)

lemma fill_left_pos:
  "fill cfg ss n = (ss', es, left, returned) \<Longrightarrow> 0 < n \<Longrightarrow> \<not> returned \<Longrightarrow> 0 < left"
  by (induction ss arbitrary: n ss' es left returned)
     (auto simp: Let_def split: prod.splits if_splits)

lemma fill_no_create:
  "fill cfg ss n = (ss', es, left, returned) \<Longrightarrow> created_sizes es = []"
  by (induction ss arbitrary: n ss' es left returned)
     (auto simp: Let_def split: prod.splits if_splits)

subsection \<open>The creation loop\<close>

lemma created_sizes_append: "created_sizes (es @ es') = created_sizes es @ created_sizes es'"
  by (induction es rule: created_sizes.induct) auto

lemma create_loop_total:
  "0 < cap \<Longrightarrow> cap = creation_cap smax cfg \<Longrightarrow> 0 \<le> r \<Longrightarrow> r \<le> int k * cap \<Longrightarrow>
   create_loop smax cfg pn k r = (es, Inr u) \<Longrightarrow> sum_list (created_sizes es) = r"
proof (induction k arbitrary: r es)
  case 0
  then show ?case by simp
next
  case (Suc k)
  let ?m = "min cap r"
  from Suc.prems obtain reg where reg: "region cfg = Some reg" "reg \<noteq> []"
    by (auto simp: Let_def split: option.splits if_splits)
  obtain es' res where rec: "create_loop smax cfg pn k (r - ?m) = (es', res)"
    by (cases "create_loop smax cfg pn k (r - ?m)") auto
  with Suc.prems reg have es: "es = Create pn (vm_sku cfg) (image_a cfg) reg ?m
      (spot_instances cfg) [(''pool'', pn)] # es'" and res: "res = Inr u"
    by (auto simp: Let_def creation_cap_def)
  have "0 \<le> r - ?m" by simp
  moreover have "r - ?m \<le> int k * cap"
  proof (cases "r \<le> cap")
    case True
    with Suc.prems show ?thesis by simp
  next
    case False
    with Suc.prems show ?thesis by (simp add: algebra_simps)
  qed
  ultimately have "sum_list (created_sizes es') = r - ?m"
    using Suc.IH [of "r - ?m" es'] Suc.prems(1,2) rec res by simp
  with es show ?case by simp
qed

lemma ceiling_covers: "0 < b \<Longrightarrow> a \<le> - ((- a) div b) * b" for a b :: int
  by (rule ceiling_bounds)

lemma ceiling_pos: "0 < b \<Longrightarrow> 0 < a \<Longrightarrow> 0 < - ((- a) div b)" for a b :: int
proof -
  assume b: "0 < b" and a: "0 < a"
  have "(- a) div b < 0" using a b by (simp add: div_neg_pos_less0)
  then show ?thesis by simp
qed

subsection \<open>The function\<close>

lemma fill_left_le:
  "fill cfg ss n = (ss', es, left, returned) \<Longrightarrow> 0 < n \<Longrightarrow> left \<le> n"
proof (induction ss arbitrary: n ss' es left returned)
  case Nil
  then show ?case by simp
next
  case (Cons s ss)
  show ?case
  proof (cases "state s = running \<and> size_s s < min (max_size_s s) (scaleset_size cfg)")
    case True
    let ?room = "min (max_size_s s) (scaleset_size cfg) - size_s s"
    show ?thesis
    proof (cases "n \<le> ?room")
      case fits: True
      with True Cons.prems show ?thesis by (simp add: Let_def)
    next
      case more: False
      obtain rest' es' left' ret' where r: "fill cfg ss (n - ?room) = (rest', es', left', ret')"
        by (cases "fill cfg ss (n - ?room)") auto
      with True more Cons.prems have eq: "left = left'" by (simp add: Let_def)
      from more have "0 < n - ?room" by simp
      from Cons.IH [OF r this] have "left' \<le> n - ?room" .
      moreover from True have "0 < ?room" by simp
      ultimately show ?thesis using eq by linarith
    qed
  next
    case False
    obtain rest' es' left' ret' where r: "fill cfg ss n = (rest', es', left', ret')"
      by (cases "fill cfg ss n") auto
    with False Cons.prems have "left = left'" by (auto simp: Let_def split: if_splits)
    with Cons.IH [OF r Cons.prems(2)] show ?thesis by simp
  qed
qed

lemma scale_up_unfold:
  assumes "autoscale pool = Some cfg" "fill cfg scalesets n = (fs, fes, left, returned)"
  shows "scale_up smax pool scalesets n =
    (if returned then (fs, fes, Inr ())
     else (case ceil_of_quotient left (creation_cap smax cfg) of
             Inl e \<Rightarrow> (fs, fes, Inl e)
           | Inr k \<Rightarrow>
              (case create_loop smax cfg (name pool) (nat k) left of
                 (es', r) \<Rightarrow> (fs, fes @ es', r))))"
  using assms by (simp add: scale_up_def)

lemmas example_defs = pool_example_def cfg_example_def scaleset_example_def image_max_1000_def
  no_free_nodes_def task_example_def free_example_def
  task_unresolved_def task_mistyped_def pool_named_def store_example_def tasks_example_def

lemmas scale_up_defs = scale_up_def creation_cap_def ceil_of_quotient_exact
  ceil_of_quotient_zero Let_def eval_nat_numeral

subsection \<open>Conservation\<close>

text \<open>
  C2.  For a pool with an autoscale configuration, every list of scalesets and every
  positive \<open>nodes_needed\<close>: when \<open>scale_up\<close> returns without raising, the size increases
  of the existing scalesets plus the sizes of the created scalesets add up to
  \<open>nodes_needed\<close>.  The creation cap \<open>min (scaleset_max_size image) scaleset_size\<close> is not
  negative, and \<open>nodes_needed\<close> and the cap are below \<open>2 ^ 53\<close>, where \<^verbatim>\<open>math.ceil\<close> of the
  double quotient is the ceiling of the exact quotient.
\<close>

theorem scale_up_conservation:
  assumes cfg: "autoscale pool = Some cfg"
    and pos: "0 < nodes_needed" and below: "nodes_needed < 2 ^ 53"
    and cap: "0 \<le> creation_cap scaleset_max_size cfg"
      "creation_cap scaleset_max_size cfg < 2 ^ 53"
    and run: "scale_up scaleset_max_size pool scalesets nodes_needed = (scalesets', es, Inr u)"
  shows "size_increases scalesets scalesets' + sum_list (created_sizes es) = nodes_needed"
proof -
  obtain fs fes left returned where f: "fill cfg scalesets nodes_needed = (fs, fes, left, returned)"
    by (cases "fill cfg scalesets nodes_needed") auto
  note inc = fill_conserve [OF f] and nocr = fill_no_create [OF f]
  note su = scale_up_unfold [OF cfg f, of scaleset_max_size]
  show ?thesis
  proof (cases returned)
    case True
    with run su have "scalesets' = fs" "es = fes" by auto
    with inc nocr fill_returned [OF f True] show ?thesis by simp
  next
    case False
    then have left: "0 < left" using fill_left_pos [OF f pos] by simp
    have left': "left < 2 ^ 53" using fill_left_le [OF f pos] below by simp
    let ?cap = "creation_cap scaleset_max_size cfg"
    have nz: "?cap \<noteq> 0"
    proof
      assume "?cap = 0"
      with run su False show False by (simp add: ceil_of_quotient_zero)
    qed
    with cap have cpos: "0 < ?cap" by simp
    have q: "ceil_of_quotient left ?cap = Inr (- ((- left) div ?cap))"
      using left left' cpos cap(2) by (rule ceil_of_quotient_exact)
    obtain ces where c: "create_loop scaleset_max_size cfg (name pool) (nat (- ((- left) div ?cap))) left
        = (ces, Inr u)" and eq: "scalesets' = fs" "es = fes @ ces"
      using run su False q by (auto split: prod.splits)
    have "left \<le> int (nat (- ((- left) div ?cap))) * ?cap"
      using ceiling_covers [OF cpos, of left] ceiling_pos [OF cpos left] by simp
    then have "sum_list (created_sizes ces) = left"
      using create_loop_total [OF cpos refl _ _ c] left by simp
    with inc nocr eq show ?thesis by (simp add: created_sizes_append)
  qed
qed

text \<open>
  The second example scenario of the spec: one running scaleset of size 3, cap 5, four
  nodes needed.  The scaleset grows by 2 and one scaleset of size 2 is created.
\<close>

theorem scale_up_conservation_witness:
  "autoscale (pool_example (cfg_example 2 (Some 10) 5 (Some ''eastus''))) =
     Some (cfg_example 2 (Some 10) 5 (Some ''eastus'')) \<and>
   (0::int) < 4 \<and> (4::int) < 2 ^ 53 \<and>
   0 \<le> creation_cap image_max_1000 (cfg_example 2 (Some 10) 5 (Some ''eastus'')) \<and>
   creation_cap image_max_1000 (cfg_example 2 (Some 10) 5 (Some ''eastus'')) < 2 ^ 53 \<and>
   scale_up image_max_1000 (pool_example (cfg_example 2 (Some 10) 5 (Some ''eastus'')))
       [scaleset_example 1 running 3] 4 =
     ([scaleset_example 1 resize 5],
      [Save (scaleset_example 1 resize 5),
       Create ''linux'' ''Standard_D2s_v3'' ''Canonical:UbuntuServer:18.04-LTS:latest'' ''eastus'' 2
         False [(''pool'', ''linux'')]],
      Inr ()) \<and>
   size_increases [scaleset_example 1 running 3] [scaleset_example 1 resize 5] +
     sum_list (created_sizes
       [Save (scaleset_example 1 resize 5),
        Create ''linux'' ''Standard_D2s_v3'' ''Canonical:UbuntuServer:18.04-LTS:latest'' ''eastus'' 2
          False [(''pool'', ''linux'')]]) = 4"
proof -
  let ?cfg = "cfg_example 2 (Some 10) 5 (Some ''eastus'')"
  have a: "autoscale (pool_example ?cfg) = Some ?cfg" by (simp add: pool_example_def)
  have c: "0 \<le> creation_cap image_max_1000 ?cfg" "creation_cap image_max_1000 ?cfg < 2 ^ 53"
    by (simp_all add: creation_cap_def image_max_1000_def cfg_example_def)
  have r: "scale_up image_max_1000 (pool_example ?cfg) [scaleset_example 1 running 3] 4 =
     ([scaleset_example 1 resize 5],
      [Save (scaleset_example 1 resize 5),
       Create ''linux'' ''Standard_D2s_v3'' ''Canonical:UbuntuServer:18.04-LTS:latest'' ''eastus'' 2
         False [(''pool'', ''linux'')]],
      Inr ())"
    by (simp add: scale_up_defs example_defs)
  from scale_up_conservation [OF a _ _ c r] a c r show ?thesis by simp
qed

subsection \<open>Caps, the missing region and the creation cap\<close>

lemma fill_only_saves:
  "fill cfg ss n = (ss', es, left, returned) \<Longrightarrow> es = map Save (saved_scalesets es)"
  by (induction ss arbitrary: n ss' es left returned)
     (auto simp: Let_def split: prod.splits if_splits)

lemma fill_cap:
  "fill cfg ss n = (ss', es, left, returned) \<Longrightarrow>
   list_all2 (\<lambda>old new.
      (size_s old < size_s new \<longrightarrow> size_s new \<le> min (max_size_s old) (scaleset_size cfg)) \<and>
      (min (max_size_s old) (scaleset_size cfg) \<le> size_s old \<longrightarrow> new = old) \<and>
      size_s new \<le> max (size_s old) (min (max_size_s old) (scaleset_size cfg))) ss ss'"
proof (induction ss arbitrary: n ss' es left returned)
  case Nil
  then show ?case by simp
next
  case (Cons s ss)
  from Cons.prems show ?case
    by (auto simp: Let_def split: prod.splits if_splits dest: Cons.IH intro!: list_all2_refl)
qed

lemma create_loop_cap:
  "create_loop smax cfg pn k r = (es, res) \<Longrightarrow>
   list_all (\<lambda>sz. sz \<le> creation_cap smax cfg) (created_sizes es)"
  by (induction k arbitrary: r es res)
     (auto simp: Let_def creation_cap_def split: prod.splits option.splits if_splits)


text \<open>
  C3.  Whatever \<open>scale_up\<close> does for a pool with an autoscale configuration, and however it
  ends: the list of existing scalesets keeps its length; an existing scaleset whose size
  was increased ends at most at \<open>min (scaleset.max_size()) scaleset_size\<close>; one that was already
  at or above that cap is left as it was; no size ends above the larger of its old value
  and the cap; and every created scaleset has a size of at most
  \<open>min (scaleset_max_size image) scaleset_size\<close>.
\<close>

theorem scale_up_cap_respect:
  assumes cfg: "autoscale pool = Some cfg"
    and run: "scale_up scaleset_max_size pool scalesets nodes_needed = (scalesets', es, res)"
  shows "length scalesets' = length scalesets \<and>
    (\<forall>(old, new) \<in> set (zip scalesets scalesets').
       (size_s old < size_s new \<longrightarrow> size_s new \<le> min (max_size_s old) (scaleset_size cfg)) \<and>
       (min (max_size_s old) (scaleset_size cfg) \<le> size_s old \<longrightarrow> new = old) \<and>
       size_s new \<le> max (size_s old) (min (max_size_s old) (scaleset_size cfg))) \<and>
    (\<forall>sz \<in> set (created_sizes es).
       sz \<le> min (scaleset_max_size (image_a cfg)) (scaleset_size cfg))"
proof -
  obtain fs fes left returned where f: "fill cfg scalesets nodes_needed = (fs, fes, left, returned)"
    by (cases "fill cfg scalesets nodes_needed") auto
  note su = scale_up_unfold [OF cfg f, of scaleset_max_size]
  from run su have fs: "scalesets' = fs"
    by (auto split: if_splits sum.splits prod.splits)
  have "list_all (\<lambda>sz. sz \<le> creation_cap scaleset_max_size cfg) (created_sizes es)"
    using run su fill_no_create [OF f]
    by (auto simp: created_sizes_append split: if_splits sum.splits prod.splits
        dest: create_loop_cap)
  then have created: "\<forall>sz \<in> set (created_sizes es).
       sz \<le> min (scaleset_max_size (image_a cfg)) (scaleset_size cfg)"
    by (simp add: list_all_iff creation_cap_def)
  from fill_cap [OF f] fs have "length scalesets' = length scalesets \<and>
    (\<forall>(old, new) \<in> set (zip scalesets scalesets').
       (size_s old < size_s new \<longrightarrow> size_s new \<le> min (max_size_s old) (scaleset_size cfg)) \<and>
       (min (max_size_s old) (scaleset_size cfg) \<le> size_s old \<longrightarrow> new = old) \<and>
       size_s new \<le> max (size_s old) (min (max_size_s old) (scaleset_size cfg)))"
    by (simp add: list_all2_iff)
  with created show ?thesis by blast
qed

text \<open>
  The creation loop after a division that returned: with a missing region the first
  iteration raises, and a positive number of iterations is never skipped.
\<close>

lemma create_loop_region_missing:
  "region cfg = None \<or> region cfg = Some [] \<Longrightarrow> 1 \<le> k \<Longrightarrow>
   create_loop smax cfg pn (nat k) left = ([], Inl RegionMissing)"
  by (cases "nat k") (auto simp: Let_def)

text \<open>
  C7.  When demand remains after the loop over the existing scalesets and the
  configuration has no region (\<^verbatim>\<open>None\<close> or the empty string), \<open>scale_up\<close> raises, for every
  creation cap from 0 to below \<open>2 ^ 53\<close>: the division error of line 51 when the cap is 0;
  otherwise "Region is missing", or \<^verbatim>\<open>OverflowError\<close> from line 51 when the quotient is
  beyond the doubles, which no demand below \<open>2 ^ 53\<close> is.  The effects issued are those of
  the first loop, all of them saves of existing scalesets, and they stay issued; nothing
  is created.
\<close>

theorem scale_up_region_missing:
  assumes cfg: "autoscale pool = Some cfg"
    and f: "fill cfg scalesets nodes_needed = (scalesets', es, left, returned)"
    and left: "0 < left"
    and reg: "region cfg = None \<or> region cfg = Some []"
    and cap: "0 \<le> creation_cap scaleset_max_size cfg"
      "creation_cap scaleset_max_size cfg < 2 ^ 53"
  shows "scale_up scaleset_max_size pool scalesets nodes_needed =
      (scalesets', es,
       Inl (if creation_cap scaleset_max_size cfg = 0 then ZeroDivisionError
            else if ceil_of_quotient left (creation_cap scaleset_max_size cfg) = Inl OverflowError
              then OverflowError
            else RegionMissing)) \<and>
    (0 < creation_cap scaleset_max_size cfg \<and> left < 2 ^ 53 \<longrightarrow>
       ceil_of_quotient left (creation_cap scaleset_max_size cfg) \<noteq> Inl OverflowError) \<and>
    created_sizes es = [] \<and> es = map Save (saved_scalesets es)"
proof -
  let ?cap = "creation_cap scaleset_max_size cfg"
  have nr: "\<not> returned" using fill_returned [OF f] left by auto
  note su = scale_up_unfold [OF cfg f, of scaleset_max_size]
  have raised: "scale_up scaleset_max_size pool scalesets nodes_needed =
      (scalesets', es,
       Inl (if ?cap = 0 then ZeroDivisionError
            else if ceil_of_quotient left ?cap = Inl OverflowError then OverflowError
            else RegionMissing))"
  proof (cases "?cap = 0")
    case True
    with su nr show ?thesis by (simp add: ceil_of_quotient_zero)
  next
    case False
    with cap have cpos: "0 < ?cap" by simp
    from ceil_of_quotient_positive [OF left cpos cap(2)]
    consider "ceil_of_quotient left ?cap = Inl OverflowError"
      | k where "ceil_of_quotient left ?cap = Inr k" "1 \<le> k" by blast
    then show ?thesis
    proof cases
      case 1
      with su nr False show ?thesis by simp
    next
      case 2
      with su nr False create_loop_region_missing [OF reg 2(2)] show ?thesis by simp
    qed
  qed
  have exact: "ceil_of_quotient left ?cap \<noteq> Inl OverflowError" if "0 < ?cap" "left < 2 ^ 53"
    using ceil_of_quotient_exact [OF left that(2) that(1) cap(2)] by simp
  from raised exact fill_no_create [OF f] fill_only_saves [OF f] show ?thesis by blast
qed


text \<open>
  Two running scalesets, the first at the cap 5 and the second of size 3, four nodes
  needed: the first is left alone, the second grows to 5, a scaleset of size 2 is created.
\<close>

theorem scale_up_cap_respect_witness:
  "autoscale (pool_example (cfg_example 2 (Some 10) 5 (Some ''eastus''))) =
     Some (cfg_example 2 (Some 10) 5 (Some ''eastus'')) \<and>
   scale_up image_max_1000 (pool_example (cfg_example 2 (Some 10) 5 (Some ''eastus'')))
       [scaleset_example 1 running 5, scaleset_example 2 running 3] 4 =
     ([scaleset_example 1 running 5, scaleset_example 2 resize 5],
      [Save (scaleset_example 2 resize 5),
       Create ''linux'' ''Standard_D2s_v3'' ''Canonical:UbuntuServer:18.04-LTS:latest'' ''eastus'' 2
         False [(''pool'', ''linux'')]],
      Inr ()) \<and>
   size_s (scaleset_example 2 running 3) < size_s (scaleset_example 2 resize 5) \<and>
   size_s (scaleset_example 2 resize 5) \<le>
     min (max_size_s (scaleset_example 2 running 3))
       (scaleset_size (cfg_example 2 (Some 10) 5 (Some ''eastus''))) \<and>
   min (max_size_s (scaleset_example 1 running 5))
       (scaleset_size (cfg_example 2 (Some 10) 5 (Some ''eastus''))) \<le>
     size_s (scaleset_example 1 running 5) \<and>
   (2::int) \<le> min (image_max_1000 (image_a (cfg_example 2 (Some 10) 5 (Some ''eastus''))))
       (scaleset_size (cfg_example 2 (Some 10) 5 (Some ''eastus'')))"
proof -
  let ?cfg = "cfg_example 2 (Some 10) 5 (Some ''eastus'')"
  have a: "autoscale (pool_example ?cfg) = Some ?cfg" by (simp add: pool_example_def)
  have r: "scale_up image_max_1000 (pool_example ?cfg)
       [scaleset_example 1 running 5, scaleset_example 2 running 3] 4 =
     ([scaleset_example 1 running 5, scaleset_example 2 resize 5],
      [Save (scaleset_example 2 resize 5),
       Create ''linux'' ''Standard_D2s_v3'' ''Canonical:UbuntuServer:18.04-LTS:latest'' ''eastus'' 2
         False [(''pool'', ''linux'')]],
      Inr ())"
    by (simp add: scale_up_defs example_defs)
  have "size_s (scaleset_example 2 running 3) < size_s (scaleset_example 2 resize 5)"
    and "min (max_size_s (scaleset_example 1 running 5)) (scaleset_size ?cfg) \<le>
     size_s (scaleset_example 1 running 5)"
    by (simp_all add: example_defs)
  with scale_up_cap_respect [OF a r] a r show ?thesis by simp
qed

text \<open>
  The sixth example scenario of the spec, with one running scaleset that takes two of the
  four nodes before the exception.
\<close>

theorem scale_up_region_missing_witness:
  "autoscale (pool_example (cfg_example 2 (Some 10) 5 None)) =
     Some (cfg_example 2 (Some 10) 5 None) \<and>
   fill (cfg_example 2 (Some 10) 5 None) [scaleset_example 1 running 3] 4 =
     ([scaleset_example 1 resize 5], [Save (scaleset_example 1 resize 5)], 2, False) \<and>
   (0::int) < 2 \<and>
   region (cfg_example 2 (Some 10) 5 None) = None \<and>
   0 \<le> creation_cap image_max_1000 (cfg_example 2 (Some 10) 5 None) \<and>
   creation_cap image_max_1000 (cfg_example 2 (Some 10) 5 None) < 2 ^ 53 \<and>
   ceil_of_quotient 2 (creation_cap image_max_1000 (cfg_example 2 (Some 10) 5 None)) = Inr 1 \<and>
   scale_up image_max_1000 (pool_example (cfg_example 2 (Some 10) 5 None))
       [scaleset_example 1 running 3] 4 =
     ([scaleset_example 1 resize 5], [Save (scaleset_example 1 resize 5)], Inl RegionMissing)"
proof -
  let ?cfg = "cfg_example 2 (Some 10) 5 None"
  have a: "autoscale (pool_example ?cfg) = Some ?cfg" by (simp add: pool_example_def)
  have f: "fill ?cfg [scaleset_example 1 running 3] 4 =
     ([scaleset_example 1 resize 5], [Save (scaleset_example 1 resize 5)], 2, False)"
    by (simp add: Let_def example_defs)
  have reg: "region ?cfg = None \<or> region ?cfg = Some []" and reg': "region ?cfg = None"
    by (simp_all add: cfg_example_def)
  have c: "0 \<le> creation_cap image_max_1000 ?cfg" "creation_cap image_max_1000 ?cfg < 2 ^ 53"
    and c': "creation_cap image_max_1000 ?cfg \<noteq> 0"
    by (simp_all add: creation_cap_def example_defs)
  have q: "ceil_of_quotient 2 (creation_cap image_max_1000 ?cfg) = Inr 1"
    by (simp add: creation_cap_def example_defs ceil_of_quotient_exact)
  from scale_up_region_missing [OF a f _ reg c] a f reg' c c' q show ?thesis by simp
qed


section \<open>Properties of scale\_down\<close>

lemma scale_down_append:
  "scale_down free (pre @ post) n =
    (case scale_down free pre n of
       (pre', es, m) \<Rightarrow>
         (case scale_down free post m of
            (post', es', k) \<Rightarrow> (pre' @ post', es @ es', k)))"
  by (induction pre arbitrary: n) (auto split: prod.splits)

lemma scale_down_length:
  "scale_down free ss n = (ss', es, left) \<Longrightarrow> length ss' = length ss"
  by (induction ss arbitrary: n ss' es left) (auto split: prod.splits)

lemma saved_scalesets_append:
  "saved_scalesets (es @ es') = saved_scalesets es @ saved_scalesets es'"
  by (induction es rule: saved_scalesets.induct) auto

lemma shutdown_nodes_append:
  "shutdown_nodes (es @ es') = shutdown_nodes es @ shutdown_nodes es'"
  by (induction es rule: shutdown_nodes.induct) auto

lemma shutdown_nodes_map [simp]: "shutdown_nodes (map SetShutdown ns) = ns"
  by (induction ns) auto

lemma saved_scalesets_map [simp]: "saved_scalesets (map SetShutdown ns) = []"
  by (induction ns) auto

lemma scale_down_step_bounds:
  assumes "scale_down_step free s m = (s', es, m')"
  shows "m - m' \<le> int (length (free (scaleset_id s)))"
    and "length (shutdown_nodes es) \<le> length (free (scaleset_id s))"
    and "size_s s - size_s s' \<le> int (length (free (scaleset_id s)))"
    and "size_s s' \<le> size_s s"
    and "scaleset_id s' = scaleset_id s"
    and "m - m' \<le> (\<Sum>x\<leftarrow>saved_scalesets es. int (length (free (scaleset_id x))))"
    and "set (shutdown_nodes es) \<subseteq> set (free (scaleset_id s))"
  using assms by (auto simp: scale_down_step_def Let_def split: if_splits)

lemma scale_down_total:
  "scale_down free ss n = (ss', es, left) \<Longrightarrow>
   n - left \<le> (\<Sum>x\<leftarrow>saved_scalesets es. int (length (free (scaleset_id x))))"
proof (induction ss arbitrary: n ss' es left)
  case Nil
  then show ?case by simp
next
  case (Cons s ss)
  obtain s' es1 m where st: "scale_down_step free s n = (s', es1, m)"
    by (cases "scale_down_step free s n") auto
  obtain rest' es2 k where r: "scale_down free ss m = (rest', es2, k)"
    by (cases "scale_down free ss m") auto
  from Cons.prems st r have eq: "es = es1 @ es2" "left = k" by auto
  from scale_down_step_bounds(6) [OF st] Cons.IH [OF r] eq show ?case
    by (simp add: saved_scalesets_append)
qed

lemma scale_down_sizes:
  "scale_down free ss n = (ss', es, left) \<Longrightarrow>
   list_all2 (\<lambda>old new. size_s new \<le> size_s old \<and>
      size_s old - size_s new \<le> int (length (free (scaleset_id old)))) ss ss'"
proof (induction ss arbitrary: n ss' es left)
  case Nil
  then show ?case by simp
next
  case (Cons s ss)
  obtain s' es1 m where st: "scale_down_step free s n = (s', es1, m)"
    by (cases "scale_down_step free s n") auto
  obtain rest' es2 k where r: "scale_down free ss m = (rest', es2, k)"
    by (cases "scale_down free ss m") auto
  from Cons.prems st r have eq: "ss' = s' # rest'" by auto
  from scale_down_step_bounds(3,4) [OF st] Cons.IH [OF r] eq show ?case by simp
qed

lemma scale_down_shutdown_free:
  "scale_down free ss n = (ss', es, left) \<Longrightarrow>
   set (shutdown_nodes es) \<subseteq> (\<Union>s\<in>set ss. set (free (scaleset_id s)))"
proof (induction ss arbitrary: n ss' es left)
  case Nil
  then show ?case by simp
next
  case (Cons s ss)
  obtain s' es1 m where st: "scale_down_step free s n = (s', es1, m)"
    by (cases "scale_down_step free s n") auto
  obtain rest' es2 k where r: "scale_down free ss m = (rest', es2, k)"
    by (cases "scale_down free ss m") auto
  from Cons.prems st r have eq: "es = es1 @ es2" by auto
  from scale_down_step_bounds(7) [OF st] Cons.IH [OF r] eq show ?case
    by (auto simp: shutdown_nodes_append)
qed

text \<open>
  C4.  For every list of scalesets and every \<open>nodes_to_remove\<close> (positive or not):
  no scaleset's size goes up, and none goes down by more than the number of its free
  nodes; one run of the loop body for a scaleset lowers \<open>nodes_to_remove\<close> by at most
  the number of that scaleset's free nodes and sends at most that many shutdown commands;
  every node shut down is a free node of one of the scalesets; and the total reduction,
  \<open>nodes_to_remove\<close> before minus after, is at most the number of free nodes of the
  scalesets that were saved, which are the scalesets reclaimed from.
\<close>

theorem scale_down_no_over_reclamation:
  assumes run: "scale_down free scalesets nodes_to_remove = (scalesets', es, left)"
  shows "length scalesets' = length scalesets \<and>
    (\<forall>(old, new) \<in> set (zip scalesets scalesets').
       size_s new \<le> size_s old \<and>
       size_s old - size_s new \<le> int (length (free (scaleset_id old)))) \<and>
    (case scale_down_step free scaleset remaining of
       (scaleset', es1, remaining') \<Rightarrow>
         remaining - remaining' \<le> int (length (free (scaleset_id scaleset))) \<and>
         length (shutdown_nodes es1) \<le> length (free (scaleset_id scaleset))) \<and>
    set (shutdown_nodes es) \<subseteq> (\<Union>s\<in>set scalesets. set (free (scaleset_id s))) \<and>
    nodes_to_remove - left \<le> (\<Sum>s\<leftarrow>saved_scalesets es. int (length (free (scaleset_id s))))"
proof -
  have sizes: "length scalesets' = length scalesets \<and>
    (\<forall>(old, new) \<in> set (zip scalesets scalesets').
       size_s new \<le> size_s old \<and>
       size_s old - size_s new \<le> int (length (free (scaleset_id old))))"
    using scale_down_sizes [OF run] by (simp add: list_all2_iff)
  have step: "(case scale_down_step free scaleset remaining of
       (scaleset', es1, remaining') \<Rightarrow>
         remaining - remaining' \<le> int (length (free (scaleset_id scaleset))) \<and>
         length (shutdown_nodes es1) \<le> length (free (scaleset_id scaleset)))"
    using scale_down_step_bounds(1,2) [of free scaleset remaining]
    by (cases "scale_down_step free scaleset remaining") auto
  from sizes step scale_down_shutdown_free [OF run] scale_down_total [OF run]
  show ?thesis by blast
qed

text \<open>
  C5.  Take any scaleset of the list, reached by the loop with \<open>remaining\<close> nodes still to
  remove, that has free nodes while \<open>remaining\<close> is positive.  If
  \<open>min (number of free nodes) remaining \<ge> size\<close> and the number of free nodes equals the
  size, the scaleset is saved in state \<open>shutdown\<close> with its size untouched and every one
  of its free nodes receives \<^verbatim>\<open>set_shutdown\<close>; in every other case it is saved in state
  \<open>resize\<close> with its size lowered by \<open>min (number of free nodes) remaining\<close> and no node is
  shut down.  In both cases the loop goes on with \<open>remaining\<close> lowered by that minimum.
\<close>

theorem scale_down_full_retirement:
  assumes pre: "scale_down free pre nodes_to_remove = (pre', es0, remaining)"
    and nodes: "free (scaleset_id scaleset) \<noteq> []"
    and rem: "0 < remaining"
    and post: "scale_down free post
        (remaining - min (int (length (free (scaleset_id scaleset)))) remaining) = (post', es1, left)"
  shows "scale_down free (pre @ scaleset # post) nodes_to_remove =
    (if size_s scaleset \<le> min (int (length (free (scaleset_id scaleset)))) remaining \<and>
        int (length (free (scaleset_id scaleset))) = size_s scaleset
     then (pre' @ scaleset\<lparr>state := shutdown\<rparr> # post',
           es0 @ Save (scaleset\<lparr>state := shutdown\<rparr>) #
             map SetShutdown (free (scaleset_id scaleset)) @ es1,
           left)
     else (pre' @ scaleset\<lparr>size_s := size_s scaleset -
                min (int (length (free (scaleset_id scaleset)))) remaining, state := resize\<rparr> # post',
           es0 @ Save (scaleset\<lparr>size_s := size_s scaleset -
                min (int (length (free (scaleset_id scaleset)))) remaining, state := resize\<rparr>) # es1,
           left))"
proof (cases "size_s scaleset \<le> min (int (length (free (scaleset_id scaleset)))) remaining \<and>
        int (length (free (scaleset_id scaleset))) = size_s scaleset")
  case True
  then have m: "min (int (length (free (scaleset_id scaleset)))) remaining = size_s scaleset"
    by auto
  with True nodes rem have "scale_down_step free scaleset remaining =
      (scaleset\<lparr>state := shutdown\<rparr>,
       Save (scaleset\<lparr>state := shutdown\<rparr>) # map SetShutdown (free (scaleset_id scaleset)),
       remaining - min (int (length (free (scaleset_id scaleset)))) remaining)"
    by (simp add: scale_down_step_def Let_def)
  with pre post have "scale_down free (pre @ scaleset # post) nodes_to_remove =
      (pre' @ scaleset\<lparr>state := shutdown\<rparr> # post',
       es0 @ Save (scaleset\<lparr>state := shutdown\<rparr>) #
         map SetShutdown (free (scaleset_id scaleset)) @ es1,
       left)"
    by (simp add: scale_down_append)
  then show ?thesis by (subst if_P [OF True])
next
  case False
  with nodes rem have "scale_down_step free scaleset remaining =
      (scaleset\<lparr>size_s := size_s scaleset -
          min (int (length (free (scaleset_id scaleset)))) remaining, state := resize\<rparr>,
       [Save (scaleset\<lparr>size_s := size_s scaleset -
          min (int (length (free (scaleset_id scaleset)))) remaining, state := resize\<rparr>)],
       remaining - min (int (length (free (scaleset_id scaleset)))) remaining)"
    by (simp add: scale_down_step_def Let_def)
  with pre post have "scale_down free (pre @ scaleset # post) nodes_to_remove =
      (pre' @ scaleset\<lparr>size_s := size_s scaleset -
            min (int (length (free (scaleset_id scaleset)))) remaining, state := resize\<rparr> # post',
       es0 @ Save (scaleset\<lparr>size_s := size_s scaleset -
            min (int (length (free (scaleset_id scaleset)))) remaining, state := resize\<rparr>) # es1,
       left)"
    by (simp add: scale_down_append)
  then show ?thesis by (subst if_not_P [OF False])
qed


lemmas scale_down_defs = scale_down_step_def Let_def eval_nat_numeral

text \<open>
  Three scalesets and eight nodes to remove: the first, of size 5 with five free nodes, is
  retired; the second, of size 5 with two free nodes, shrinks to 3; the third has no
  free node and is left alone.  One node of the eight is not reclaimed.
\<close>

lemma scale_down_example:
  "scale_down free_example
      [scaleset_example 1 running 5, scaleset_example 2 running 5, scaleset_example 3 running 4] 8 =
     ([scaleset_example 1 shutdown 5, scaleset_example 2 resize 3, scaleset_example 3 running 4],
      Save (scaleset_example 1 shutdown 5) # map SetShutdown (node_range 10 5) @
        [Save (scaleset_example 2 resize 3)],
      1)"
  by (simp add: scale_down_defs example_defs)

theorem scale_down_no_over_reclamation_witness:
  "scale_down free_example
      [scaleset_example 1 running 5, scaleset_example 2 running 5, scaleset_example 3 running 4] 8 =
     ([scaleset_example 1 shutdown 5, scaleset_example 2 resize 3, scaleset_example 3 running 4],
      Save (scaleset_example 1 shutdown 5) # map SetShutdown (node_range 10 5) @
        [Save (scaleset_example 2 resize 3)],
      1) \<and>
   size_s (scaleset_example 2 resize 3) \<le> size_s (scaleset_example 2 running 5) \<and>
   size_s (scaleset_example 2 running 5) - size_s (scaleset_example 2 resize 3) \<le>
     int (length (free_example (scaleset_id (scaleset_example 2 running 5)))) \<and>
   scale_down_step free_example (scaleset_example 1 running 5) 8 =
     (scaleset_example 1 shutdown 5,
      Save (scaleset_example 1 shutdown 5) # map SetShutdown (node_range 10 5), 3) \<and>
   (8::int) - 3 \<le> int (length (free_example (scaleset_id (scaleset_example 1 running 5)))) \<and>
   length (shutdown_nodes
      (Save (scaleset_example 1 shutdown 5) # map SetShutdown (node_range 10 5))) \<le>
     length (free_example (scaleset_id (scaleset_example 1 running 5))) \<and>
   (8::int) - 1 \<le>
     (\<Sum>s\<leftarrow>saved_scalesets
         (Save (scaleset_example 1 shutdown 5) # map SetShutdown (node_range 10 5) @
            [Save (scaleset_example 2 resize 3)]).
        int (length (free_example (scaleset_id s))))"
proof -
  have step: "scale_down_step free_example (scaleset_example 1 running 5) 8 =
     (scaleset_example 1 shutdown 5,
      Save (scaleset_example 1 shutdown 5) # map SetShutdown (node_range 10 5), 3)"
    by (simp add: scale_down_defs example_defs)
  from scale_down_no_over_reclamation [OF scale_down_example,
      where scaleset = "scaleset_example 1 running 5" and remaining = 8]
    scale_down_example step
  show ?thesis by simp
qed

theorem scale_down_full_retirement_witness:
  "scale_down free_example [] 8 = ([], [], 8) \<and>
   free_example (scaleset_id (scaleset_example 1 running 5)) \<noteq> [] \<and>
   (0::int) < 8 \<and>
   scale_down free_example [scaleset_example 2 running 5, scaleset_example 3 running 4]
       (8 - min (int (length (free_example (scaleset_id (scaleset_example 1 running 5))))) 8) =
     ([scaleset_example 2 resize 3, scaleset_example 3 running 4],
      [Save (scaleset_example 2 resize 3)], 1) \<and>
   size_s (scaleset_example 1 running 5) \<le>
     min (int (length (free_example (scaleset_id (scaleset_example 1 running 5))))) 8 \<and>
   int (length (free_example (scaleset_id (scaleset_example 1 running 5)))) =
     size_s (scaleset_example 1 running 5) \<and>
   scale_down free_example
       ([] @ scaleset_example 1 running 5 #
          [scaleset_example 2 running 5, scaleset_example 3 running 4]) 8 =
     ([] @ (scaleset_example 1 running 5)\<lparr>state := shutdown\<rparr> #
        [scaleset_example 2 resize 3, scaleset_example 3 running 4],
      [] @ Save ((scaleset_example 1 running 5)\<lparr>state := shutdown\<rparr>) #
        map SetShutdown (free_example (scaleset_id (scaleset_example 1 running 5))) @
        [Save (scaleset_example 2 resize 3)],
      1) \<and>
   scale_down free_example [scaleset_example 1 running 5] 8 =
     ([scaleset_example 1 shutdown 5],
      Save (scaleset_example 1 shutdown 5) # map SetShutdown (node_range 10 5), 3) \<and>
   free_example (scaleset_id (scaleset_example 2 running 5)) \<noteq> [] \<and>
   (0::int) < 3 \<and>
   scale_down free_example [scaleset_example 3 running 4]
       (3 - min (int (length (free_example (scaleset_id (scaleset_example 2 running 5))))) 3) =
     ([scaleset_example 3 running 4], [], 1) \<and>
   int (length (free_example (scaleset_id (scaleset_example 2 running 5)))) \<noteq>
     size_s (scaleset_example 2 running 5) \<and>
   scale_down free_example
       ([scaleset_example 1 running 5] @ scaleset_example 2 running 5 #
          [scaleset_example 3 running 4]) 8 =
     ([scaleset_example 1 shutdown 5] @
        (scaleset_example 2 running 5)\<lparr>size_s := size_s (scaleset_example 2 running 5) -
           min (int (length (free_example (scaleset_id (scaleset_example 2 running 5))))) 3,
           state := resize\<rparr> # [scaleset_example 3 running 4],
      (Save (scaleset_example 1 shutdown 5) # map SetShutdown (node_range 10 5)) @
        Save ((scaleset_example 2 running 5)\<lparr>size_s := size_s (scaleset_example 2 running 5) -
           min (int (length (free_example (scaleset_id (scaleset_example 2 running 5))))) 3,
           state := resize\<rparr>) # [],
      1)"
proof -
  let ?s1 = "scaleset_example 1 running 5"
  let ?s2 = "scaleset_example 2 running 5"
  let ?s3 = "scaleset_example 3 running 4"
  have pre1: "scale_down free_example [] 8 = ([], [], 8)" by simp
  have n1: "free_example (scaleset_id ?s1) \<noteq> []" and n2: "free_example (scaleset_id ?s2) \<noteq> []"
    by (simp_all add: example_defs eval_nat_numeral)
  have post1: "scale_down free_example [?s2, ?s3]
       (8 - min (int (length (free_example (scaleset_id ?s1)))) 8) =
     ([scaleset_example 2 resize 3, ?s3], [Save (scaleset_example 2 resize 3)], 1)"
    by (simp add: scale_down_defs example_defs)
  have c1: "size_s ?s1 \<le> min (int (length (free_example (scaleset_id ?s1)))) 8 \<and>
     int (length (free_example (scaleset_id ?s1))) = size_s ?s1"
    by (simp add: example_defs eval_nat_numeral)
  have pre2: "scale_down free_example [?s1] 8 =
     ([scaleset_example 1 shutdown 5],
      Save (scaleset_example 1 shutdown 5) # map SetShutdown (node_range 10 5), 3)"
    by (simp add: scale_down_defs example_defs)
  have post2: "scale_down free_example [?s3]
       (3 - min (int (length (free_example (scaleset_id ?s2)))) 3) = ([?s3], [], 1)"
    by (simp add: scale_down_defs example_defs)
  have c2: "int (length (free_example (scaleset_id ?s2))) \<noteq> size_s ?s2"
    by (simp add: example_defs eval_nat_numeral)
  have r1: "scale_down free_example ([] @ ?s1 # [?s2, ?s3]) 8 =
     ([] @ ?s1\<lparr>state := shutdown\<rparr> # [scaleset_example 2 resize 3, ?s3],
      [] @ Save (?s1\<lparr>state := shutdown\<rparr>) #
        map SetShutdown (free_example (scaleset_id ?s1)) @ [Save (scaleset_example 2 resize 3)],
      1)"
    using scale_down_full_retirement [OF pre1 n1 _ post1] c1 by simp
  have r2: "scale_down free_example ([?s1] @ ?s2 # [?s3]) 8 =
     ([scaleset_example 1 shutdown 5] @
        ?s2\<lparr>size_s := size_s ?s2 - min (int (length (free_example (scaleset_id ?s2)))) 3,
           state := resize\<rparr> # [?s3],
      (Save (scaleset_example 1 shutdown 5) # map SetShutdown (node_range 10 5)) @
        Save (?s2\<lparr>size_s := size_s ?s2 - min (int (length (free_example (scaleset_id ?s2)))) 3,
           state := resize\<rparr>) # [],
      1)"
    using scale_down_full_retirement [OF pre2 n2 _ post2] c2 by simp
  from pre1 n1 post1 c1 r1 pre2 n2 post2 c2 r2 show ?thesis by simp
qed

section \<open>Properties of get\_vm\_count and main\<close>

subsection \<open>Demand\<close>

lemma get_vm_count_sum:
  "get_vm_count tasks =
     sum_list [count tp. t \<leftarrow> tasks, Typed p \<leftarrow> [get_pool t], Typed tp \<leftarrow> [config_pool t]]"
  by (induction tasks) (auto split: pyobj.splits)

text \<open>
  C6, as amended.  \<open>get_vm_count\<close> is the sum of the requested counts of the tasks whose
  \<^verbatim>\<open>get_pool()\<close> is a \<^verbatim>\<open>Pool\<close> and whose \<^verbatim>\<open>config.pool\<close> is a \<^verbatim>\<open>TaskPool\<close>; every other task
  contributes nothing and raises nothing.  The desired total is that sum taken to at least
  \<open>min_size\<close>, and, when \<open>max_size\<close> is set to a value other than 0, clamped to at most
  \<open>max_size\<close>.  A \<open>max_size\<close> of 0 is treated like no \<open>max_size\<close>: line 130 tests its truth
  value.
\<close>

theorem demand_estimation:
  "get_vm_count tasks =
     sum_list [count tp. t \<leftarrow> tasks, Typed p \<leftarrow> [get_pool t], Typed tp \<leftarrow> [config_pool t]] \<and>
   (max_size cfg = None \<or> max_size cfg = Some 0 \<longrightarrow>
      desired_nodes cfg tasks = max (get_vm_count tasks) (min_size cfg) \<and>
      min_size cfg \<le> desired_nodes cfg tasks) \<and>
   (\<forall>m. max_size cfg = Some m \<and> m \<noteq> 0 \<longrightarrow>
      desired_nodes cfg tasks = min (max (get_vm_count tasks) (min_size cfg)) m \<and>
      desired_nodes cfg tasks \<le> m)"
  using get_vm_count_sum [of tasks] by (auto simp: desired_nodes_def Let_def)

text \<open>
  Four tasks, of which the second does not resolve to a pool and the third has no typed
  pool reference: the count is \<open>3 + 2\<close>.  Without \<open>max_size\<close> and without tasks the
  desired total is \<open>min_size = 2\<close>; with \<open>max_size = 4\<close> the count of 5 is clamped to 4.
\<close>

theorem demand_estimation_witness:
  "get_vm_count [task_example 3, task_unresolved 4, task_mistyped, task_example 2] = 5 \<and>
   max_size (cfg_example 2 None 5 None) = None \<and>
   desired_nodes (cfg_example 2 None 5 None) [] = max (get_vm_count []) 2 \<and>
   min_size (cfg_example 2 None 5 None) \<le> desired_nodes (cfg_example 2 None 5 None) [] \<and>
   max_size (cfg_example 2 (Some 4) 5 None) = Some 4 \<and> (4::int) \<noteq> 0 \<and>
   desired_nodes (cfg_example 2 (Some 4) 5 None)
       [task_example 3, task_unresolved 4, task_mistyped, task_example 2] = 4 \<and>
   desired_nodes (cfg_example 2 (Some 4) 5 None)
       [task_example 3, task_unresolved 4, task_mistyped, task_example 2] \<le> 4"
proof -
  have n: "max_size (cfg_example 2 None 5 None) = None"
    and m: "max_size (cfg_example 2 (Some 4) 5 None) = Some 4"
    and lo: "min_size (cfg_example 2 None 5 None) = 2" "min_size (cfg_example 2 (Some 4) 5 None) = 2"
    by (simp_all add: cfg_example_def)
  have c: "get_vm_count [task_example 3, task_unresolved 4, task_mistyped, task_example 2] = 5"
    by (simp add: example_defs)
  from demand_estimation [of "[]" "cfg_example 2 None 5 None"]
    demand_estimation [of "[task_example 3, task_unresolved 4, task_mistyped, task_example 2]"
      "cfg_example 2 (Some 4) 5 None"] n m lo c
  show ?thesis by simp
qed

text \<open>
  C6 as stated fails for \<open>max_size = 0\<close>: the value is set, and the desired total is 3.
\<close>

theorem demand_estimation_counterexample:
  "max_size (cfg_example 0 (Some 0) 5 None) = Some 0 \<and>
   get_vm_count [task_example 3] = 3 \<and>
   desired_nodes (cfg_example 0 (Some 0) 5 None) [task_example 3] = 3 \<and>
   \<not> desired_nodes (cfg_example 0 (Some 0) 5 None) [task_example 3] \<le> 0"
  by (simp add: desired_nodes_def example_defs)

subsection \<open>The scan of a pool's scalesets\<close>

lemma scan_busy:
  "fst (scan modifying scalesets n) = (\<exists>s\<in>set scalesets. modifying (state s))"
  by (induction scalesets arbitrary: n) auto

lemma scan_delta:
  "snd (scan modifying scalesets n) =
     n - sum_list (map size_s (takeWhile (\<lambda>s. \<not> modifying (state s)) scalesets))"
  by (induction scalesets arbitrary: n) auto

text \<open>
  C9, as amended.  The scan sets the busy flag exactly when some scaleset of the pool is in
  a modifying state, and it subtracts from the desired total the sizes of the scalesets
  that come before the first such scaleset: the loop leaves through \<^verbatim>\<open>break\<close> before line
  141, so the size of a modifying scaleset, and of every scaleset after it, is not
  subtracted.  When no scaleset is modifying, the delta is the desired total minus the sum
  of the sizes of all the pool's scalesets.
\<close>

theorem delta_computation:
  "scan modifying scalesets desired =
     ((\<exists>s\<in>set scalesets. modifying (state s)),
      desired - sum_list (map size_s (takeWhile (\<lambda>s. \<not> modifying (state s)) scalesets))) \<and>
   ((\<forall>s\<in>set scalesets. \<not> modifying (state s)) \<longrightarrow>
      scan modifying scalesets desired = (False, desired - sum_list (map size_s scalesets)))"
proof -
  have a: "scan modifying scalesets desired =
     ((\<exists>s\<in>set scalesets. modifying (state s)),
      desired - sum_list (map size_s (takeWhile (\<lambda>s. \<not> modifying (state s)) scalesets)))"
    using scan_busy [of modifying scalesets desired] scan_delta [of modifying scalesets desired]
    by (cases "scan modifying scalesets desired") simp
  have b: "scan modifying scalesets desired = (False, desired - sum_list (map size_s scalesets))"
    if none: "\<forall>s\<in>set scalesets. \<not> modifying (state s)"
  proof -
    from none have "takeWhile (\<lambda>s. \<not> modifying (state s)) scalesets = scalesets"
      by (induction scalesets) auto
    with a none show ?thesis by simp
  qed
  from a b show ?thesis by blast
qed

text \<open>Two running scalesets of sizes 2 and 1 and a desired total of 10: the delta is 7.\<close>

theorem delta_computation_witness:
  "\<not> modifying_spec (state (scaleset_example 1 running 2)) \<and>
   \<not> modifying_spec (state (scaleset_example 3 running 1)) \<and>
   scan modifying_spec [scaleset_example 1 running 2, scaleset_example 3 running 1] 10 =
     (False, 10 - sum_list (map size_s [scaleset_example 1 running 2, scaleset_example 3 running 1])) \<and>
   scan modifying_spec [scaleset_example 1 running 2, scaleset_example 3 running 1] 10 = (False, 7)"
proof -
  have "\<forall>s\<in>set [scaleset_example 1 running 2, scaleset_example 3 running 1].
      \<not> modifying_spec (state s)"
    by (simp add: modifying_spec_def example_defs)
  with delta_computation [of modifying_spec
      "[scaleset_example 1 running 2, scaleset_example 3 running 1]" 10]
  show ?thesis by (simp add: example_defs)
qed

text \<open>
  C9 as stated fails where a scaleset is modifying: with sizes 2, 3 (resizing) and 1 and a
  desired total of 10, the scan ends with 8, not with \<open>10 - 6 = 4\<close>.
\<close>

theorem delta_computation_counterexample:
  "modifying_spec (state (scaleset_example 2 resize 3)) \<and>
   scan modifying_spec
      [scaleset_example 1 running 2, scaleset_example 2 resize 3, scaleset_example 3 running 1] 10 =
     (True, 8) \<and>
   (10::int) - sum_list (map size_s
      [scaleset_example 1 running 2, scaleset_example 2 resize 3, scaleset_example 3 running 1]) = 4"
  by (simp add: modifying_spec_def example_defs)


subsection \<open>Busy pools\<close>

lemma process_pool_busy:
  assumes "\<exists>s\<in>set scalesets. modifying (state s)"
  shows "process_pool modifying smax pool tasks scalesets free = (scalesets, [], Inr ())"
proof (cases "autoscale pool")
  case None
  then show ?thesis by (simp add: process_pool_def)
next
  case (Some cfg)
  obtain busy nn where sc: "scan modifying scalesets (desired_nodes cfg tasks) = (busy, nn)"
    by (cases "scan modifying scalesets (desired_nodes cfg tasks)") auto
  with scan_busy [of modifying scalesets "desired_nodes cfg tasks"] assms have busy by simp
  with Some sc show ?thesis by (simp add: process_pool_def)
qed

lemma main_Cons:
  assumes "main modifying smax tasks search free (pool # pools) = (log, res)"
  obtains (raised) ss' es e where
      "process_pool modifying smax pool (tasks (name pool)) (search (name pool)) free =
         (ss', es, Inl e)"
      "log = [(name pool, ss', es)]" "res = Inl e"
    | (returned) ss' es log' where
      "process_pool modifying smax pool (tasks (name pool)) (search (name pool)) free =
         (ss', es, Inr ())"
      "main modifying smax tasks search free pools = (log', res)"
      "log = (name pool, ss', es) # log'"
proof -
  obtain ss' es r where p: "process_pool modifying smax pool (tasks (name pool))
      (search (name pool)) free = (ss', es, r)"
    by (cases "process_pool modifying smax pool (tasks (name pool)) (search (name pool)) free") auto
  show thesis
  proof (cases r)
    case (Inl e)
    with assms p show thesis by (intro raised [of ss' es e]) auto
  next
    case (Inr u)
    obtain log' r' where m: "main modifying smax tasks search free pools = (log', r')"
      by (cases "main modifying smax tasks search free pools") auto
    with assms p Inr show thesis by (intro returned [of ss' es log']) auto
  qed
qed

lemma main_log_busy:
  "main modifying smax tasks search free pools = (log, res) \<Longrightarrow>
   (pname, ss', es) \<in> set log \<Longrightarrow> \<exists>s\<in>set (search pname). modifying (state s) \<Longrightarrow>
   es = [] \<and> ss' = search pname"
proof (induction pools arbitrary: log res)
  case Nil
  then show ?case by simp
next
  case (Cons pool pools)
  from Cons.prems(1) show ?case
  proof (cases rule: main_Cons)
    case (raised ss1 es1 e)
    with Cons.prems(2) have "pname = name pool" "ss' = ss1" "es = es1" by auto
    with raised(1) process_pool_busy [OF Cons.prems(3), of smax pool "tasks pname" free]
    show ?thesis by simp
  next
    case (returned ss1 es1 log')
    with Cons.prems(2) consider "pname = name pool" "ss' = ss1" "es = es1"
      | "(pname, ss', es) \<in> set log'" by auto
    then show ?thesis
    proof cases
      case 1
      with returned(1) process_pool_busy [OF Cons.prems(3), of smax pool "tasks pname" free]
      show ?thesis by simp
    next
      case 2
      from Cons.IH [OF returned(2) this Cons.prems(3)] show ?thesis .
    qed
  qed
qed

lemma main_log_names:
  "main modifying smax tasks search free pools = (log, res) \<Longrightarrow>
   map fst log = map name (take (length log) pools)"
proof (induction pools arbitrary: log res)
  case Nil
  then show ?case by simp
next
  case (Cons pool pools)
  from Cons.prems show ?case
  proof (cases rule: main_Cons)
    case (raised ss1 es1 e)
    then show ?thesis by simp
  next
    case (returned ss1 es1 log')
    with Cons.IH [OF returned(2)] show ?thesis by simp
  qed
qed

text \<open>
  C1.  If any scaleset of a pool is in a modifying state, wherever it stands in the list
  and whatever the tasks ask for, processing the pool issues no effect, leaves the
  scalesets as they are and returns.  In a tick, the log lists the processed pools in
  order, and the entry of every pool that has a modifying scaleset has no effect and the
  scalesets as they were read.
\<close>

theorem busy_pool_suppression:
  "((\<exists>s\<in>set scalesets. modifying (state s)) \<longrightarrow>
      process_pool modifying scaleset_max_size pool tasks scalesets free = (scalesets, [], Inr ())) \<and>
   (main modifying scaleset_max_size get_tasks_by_pool_name search_by_pool free pools = (log, res) \<longrightarrow>
      map fst log = map name (take (length log) pools) \<and>
      (\<forall>(pname, scalesets', es) \<in> set log.
         (\<exists>s\<in>set (search_by_pool pname). modifying (state s)) \<longrightarrow>
           es = [] \<and> scalesets' = search_by_pool pname))"
proof -
  have "es = [] \<and> scalesets' = search_by_pool pname"
    if "main modifying scaleset_max_size get_tasks_by_pool_name search_by_pool free pools = (log, res)"
      "(pname, scalesets', es) \<in> set log" "\<exists>s\<in>set (search_by_pool pname). modifying (state s)"
    for pname scalesets' es
    using main_log_busy [OF that] .
  with process_pool_busy [of scalesets modifying scaleset_max_size pool tasks free]
    main_log_names [of modifying scaleset_max_size get_tasks_by_pool_name search_by_pool free pools log res]
  show ?thesis by blast
qed

text \<open>
  A tick over two pools.  \<open>linux\<close> has a resizing scaleset and a demand of 7 against a
  capacity of 5: nothing is issued for it.  \<open>windows\<close> has no scaleset and gets one.
\<close>

lemma main_example:
  "main modifying_spec image_max_1000 tasks_example
       (store_example [scaleset_example 1 running 3, scaleset_example 2 resize 2] []) no_free_nodes
     [pool_named ''linux'' (cfg_example 2 (Some 10) 5 (Some ''eastus'')),
      pool_named ''windows'' (cfg_example 2 (Some 10) 5 (Some ''westus''))] =
   ([(''linux'', [scaleset_example 1 running 3, scaleset_example 2 resize 2], []),
     (''windows'', [],
      [Create ''windows'' ''Standard_D2s_v3'' ''Canonical:UbuntuServer:18.04-LTS:latest'' ''westus'' 2
         False [(''pool'', ''windows'')]])],
    Inr ())"
  by (simp add: process_pool_def desired_nodes_def modifying_spec_def scale_up_defs example_defs)

theorem busy_pool_suppression_witness:
  "modifying_spec (state (scaleset_example 2 resize 2)) \<and>
   scaleset_example 2 resize 2 \<in> set (store_example [scaleset_example 1 running 3, scaleset_example 2 resize 2] [] ''linux'') \<and>
   desired_nodes (cfg_example 2 (Some 10) 5 (Some ''eastus'')) (tasks_example ''linux'') = 7 \<and>
   process_pool modifying_spec image_max_1000
       (pool_named ''linux'' (cfg_example 2 (Some 10) 5 (Some ''eastus'')))
       (tasks_example ''linux'') (store_example [scaleset_example 1 running 3, scaleset_example 2 resize 2] [] ''linux'') no_free_nodes =
     (store_example [scaleset_example 1 running 3, scaleset_example 2 resize 2] [] ''linux'', [], Inr ()) \<and>
   main modifying_spec image_max_1000 tasks_example
       (store_example [scaleset_example 1 running 3, scaleset_example 2 resize 2] []) no_free_nodes
     [pool_named ''linux'' (cfg_example 2 (Some 10) 5 (Some ''eastus'')),
      pool_named ''windows'' (cfg_example 2 (Some 10) 5 (Some ''westus''))] =
   ([(''linux'', [scaleset_example 1 running 3, scaleset_example 2 resize 2], []),
     (''windows'', [],
      [Create ''windows'' ''Standard_D2s_v3'' ''Canonical:UbuntuServer:18.04-LTS:latest'' ''westus'' 2
         False [(''pool'', ''windows'')]])],
    Inr ())"
proof -
  have m: "modifying_spec (state (scaleset_example 2 resize 2))"
    by (simp add: modifying_spec_def example_defs)
  have i: "scaleset_example 2 resize 2 \<in> set (store_example [scaleset_example 1 running 3, scaleset_example 2 resize 2] [] ''linux'')"
    by (simp add: example_defs)
  have d: "desired_nodes (cfg_example 2 (Some 10) 5 (Some ''eastus'')) (tasks_example ''linux'') = 7"
    by (simp add: desired_nodes_def example_defs)
  from m i have "\<exists>s\<in>set (store_example [scaleset_example 1 running 3, scaleset_example 2 resize 2] [] ''linux''). modifying_spec (state s)" by blast
  with busy_pool_suppression [of "store_example [scaleset_example 1 running 3, scaleset_example 2 resize 2] [] ''linux''" modifying_spec image_max_1000
      "pool_named ''linux'' (cfg_example 2 (Some 10) 5 (Some ''eastus''))" "tasks_example ''linux''"
      no_free_nodes]
  have "process_pool modifying_spec image_max_1000
       (pool_named ''linux'' (cfg_example 2 (Some 10) 5 (Some ''eastus'')))
       (tasks_example ''linux'') (store_example [scaleset_example 1 running 3, scaleset_example 2 resize 2] [] ''linux'') no_free_nodes =
     (store_example [scaleset_example 1 running 3, scaleset_example 2 resize 2] [] ''linux'', [], Inr ())" by blast
  with m i d main_example show ?thesis by simp
qed


section \<open>Two ticks in a row\<close>


















end
